theory Spec2Isabelle
  imports Main "HOL-Library.Word" "HOL-Library.Sublist" "HOL-Library.Multiset"
begin

unbundle bit_operations_syntax

section \<open>Return codes\<close>

text \<open>The members of the enumeration \<open>LY_ERR\<close> that \<open>tree_schema.c\<close> returns.\<close>

datatype LY_ERR = LY_SUCCESS | LY_EMEM | LY_EINVAL | LY_EEXIST | LY_EINT | LY_EVALID | LY_EDENIED

section \<open>Features and if-feature expressions\<close>

text \<open>
  A compiled feature is addressed by a pointer of type \<open>'p\<close>; the features of all modules
  of a context live in one store, a function from pointers to features. A module's array
  \<open>features\<close> is the list of the addresses of its elements, in array order; a sized array
  (\<open>LY_ARRAY\<close>) that is \<open>NULL\<close> is the empty list. An if-feature expression keeps its
  bit-packed opcodes (\<open>expr\<close>) and the pointers its \<open>LYS_IFF_F\<close> opcodes consume
  (\<open>features\<close>); a feature keeps the back-links \<open>depfeatures\<close>.

  The macros of the sized arrays are declared in \<open>common.h\<close>, which is not among the
  sources. \<open>lysc_range_dup\<close> assigns to \<open>LY_ARRAY_SIZE(dup->parts)\<close>, so \<open>LY_ARRAY_SIZE\<close> is the
  counter stored in front of the array and not a test of the pointer: on a \<open>NULL\<close> array it
  reads in front of \<open>NULL\<close>, which is \<open>None\<close> in the functions below. The loops
  \<open>LY_ARRAY_FOR\<close> run over arrays that are \<open>NULL\<close> whenever a statement has no such
  substatement (\<open>f->iffeatures\<close>, \<open>f->depfeatures\<close>), and do not run there.
\<close>

record 'p lysc_iffeature =
  iff_expr :: "8 word list"
  iff_features :: "'p list"

record 'p lysc_feature =
  f_name :: string
  f_flags :: "16 word"
  f_iffeatures :: "'p lysc_iffeature list"
  f_depfeatures :: "'p list"

record 'p lysc_module =
  mod_name :: string
  mod_features :: "'p list"

record 'p lys_module =
  compiled :: "'p lysc_module option"

type_synonym 'p heap = "'p \<Rightarrow> 'p lysc_feature"

text \<open>
  Modelled from the spec: the header \<open>tree_schema.h\<close>, which declares the flag
  \<open>LYS_FENABLED\<close> and the opcodes \<open>LYS_IFF_NOT\<close>, \<open>LYS_IFF_AND\<close>, \<open>LYS_IFF_OR\<close> and
  \<open>LYS_IFF_F\<close>, is not among the sources. The spec gives a feature "a single
  enabled/disabled bit" and an expression four opcodes "at 2 bits each"; the numbers are
  those of the header.
\<close>

definition LYS_FENABLED :: "16 word" where
  "LYS_FENABLED = 0x100"

definition LYS_IFF_NOT :: "8 word" where
  "LYS_IFF_NOT = 0"

definition LYS_IFF_AND :: "8 word" where
  "LYS_IFF_AND = 1"

definition LYS_IFF_OR :: "8 word" where
  "LYS_IFF_OR = 2"

definition LYS_IFF_F :: "8 word" where
  "LYS_IFF_F = 3"

text \<open>\<open>f->flags & LYS_FENABLED\<close>, \<open>f->flags |= LYS_FENABLED\<close> and
  \<open>f->flags &= ~LYS_FENABLED\<close>.\<close>

definition is_enabled :: "'p lysc_feature \<Rightarrow> bool" where
  "is_enabled f = (f_flags f AND LYS_FENABLED \<noteq> 0)"

definition set_enabled :: "'p lysc_feature \<Rightarrow> 'p lysc_feature" where
  "set_enabled f = f\<lparr>f_flags := f_flags f OR LYS_FENABLED\<rparr>"

definition clear_enabled :: "'p lysc_feature \<Rightarrow> 'p lysc_feature" where
  "clear_enabled f = f\<lparr>f_flags := f_flags f AND NOT LYS_FENABLED\<rparr>"

text \<open>\<open>iff_getop\<close>: the two bits at position \<open>pos\<close> of the packed opcodes. The compiler sizes
  \<open>expr\<close> for the opcodes it writes; a position beyond the bytes of the list, which the C
  code would read outside the allocation, reads as a zero byte here.\<close>

definition iff_getop :: "8 word list \<Rightarrow> nat \<Rightarrow> 8 word" where
  "iff_getop list pos =
     (let item = (if pos div 4 < length list then list ! (pos div 4) else 0);
          result = item AND push_bit (2 * (pos mod 4)) 3
      in drop_bit (2 * (pos mod 4)) result)"

text \<open>\<open>lysc_feature_value\<close>: \<open>-1\<close> for a \<open>NULL\<close> pointer, else the enabled bit.\<close>

definition lysc_feature_value :: "'p lysc_feature option \<Rightarrow> int" where
  "lysc_feature_value feature =
     (case feature of None \<Rightarrow> - 1 | Some f \<Rightarrow> (if is_enabled f then 1 else 0))"

text \<open>
  \<open>lysc_iffeature_value_\<close> (here \<open>lysc_iffeature_value_r\<close>): recursive descent over the postfix with the two running
  indices, which are returned with the value. The first argument bounds the depth of the
  recursion by the number of opcode positions of \<open>expr\<close>: every call reads one opcode, so a
  deeper call would read outside \<open>expr\<close>. Such a call, and a \<open>LYS_IFF_F\<close> opcode with no
  pointer left in \<open>features\<close>, have the value 0 here.
\<close>

fun lysc_iffeature_value_r ::
  "nat \<Rightarrow> 'p heap \<Rightarrow> 'p lysc_iffeature \<Rightarrow> nat \<Rightarrow> nat \<Rightarrow> int \<times> nat \<times> nat" where
  "lysc_iffeature_value_r 0 h ife index_e index_f = (0, index_e, index_f)"
| "lysc_iffeature_value_r (Suc n) h ife index_e index_f =
     (let op = iff_getop (iff_expr ife) index_e;
          index_e = index_e + 1
      in if op = LYS_IFF_F then
           (if index_f < length (iff_features ife)
            then (lysc_feature_value (Some (h (iff_features ife ! index_f))), index_e, index_f + 1)
            else (0, index_e, index_f + 1))
         else if op = LYS_IFF_NOT then
           (case lysc_iffeature_value_r n h ife index_e index_f of
              (a, index_e, index_f) \<Rightarrow> ((if a \<noteq> 0 then 0 else 1), index_e, index_f))
         else if op = LYS_IFF_AND \<or> op = LYS_IFF_OR then
           (case lysc_iffeature_value_r n h ife index_e index_f of
              (a, index_e, index_f) \<Rightarrow>
                (case lysc_iffeature_value_r n h ife index_e index_f of
                   (b, index_e, index_f) \<Rightarrow>
                     (if op = LYS_IFF_AND
                      then ((if a \<noteq> 0 \<and> b \<noteq> 0 then 1 else 0), index_e, index_f)
                      else ((if a \<noteq> 0 \<or> b \<noteq> 0 then 1 else 0), index_e, index_f))))
         else (0, index_e, index_f))"

text \<open>\<open>lysc_iffeature_value\<close>: \<open>-1\<close> for a \<open>NULL\<close> expression, 0 when \<open>expr\<close> is \<open>NULL\<close>.\<close>

definition lysc_iffeature_value :: "'p heap \<Rightarrow> 'p lysc_iffeature option \<Rightarrow> int" where
  "lysc_iffeature_value h ife =
     (case ife of
        None \<Rightarrow> - 1
      | Some i \<Rightarrow>
          (if iff_expr i \<noteq> []
           then fst (lysc_iffeature_value_r (4 * length (iff_expr i)) h i 0 0)
           else 0))"

text \<open>The loop \<open>LY_ARRAY_FOR(f->iffeatures, ...)\<close> of \<open>lys_feature_change\<close>: it stops at the
  first expression whose value is 0.\<close>

primrec iffeatures_true :: "'p heap \<Rightarrow> 'p lysc_iffeature list \<Rightarrow> bool" where
  "iffeatures_true h [] = True"
| "iffeatures_true h (ife # ifes) =
     (if lysc_iffeature_value h (Some ife) = 0 then False else iffeatures_true h ifes)"

text \<open>
  \<open>lys_feature_value\<close>: the search for the first feature of the name. Its loop tests
  \<open>u < LY_ARRAY_SIZE(mod->features)\<close> without testing the pointer first, as
  \<open>lys_feature_change\<close> does. A module without \<open>feature\<close> statements has
  \<open>mod->features == NULL\<close> (\<open>COMPILE_ARRAY_GOTO\<close> creates the array only \<open>if (ARRAY_P)\<close>);
  there the C code reads in front of the \<open>NULL\<close> pointer, and the result is \<open>None\<close>.
\<close>

primrec lys_feature_value_search :: "'p heap \<Rightarrow> string \<Rightarrow> 'p list \<Rightarrow> int" where
  "lys_feature_value_search h feature [] = - 1"
| "lys_feature_value_search h feature (p # ps) =
     (if f_name (h p) = feature then (if is_enabled (h p) then 1 else 0)
      else lys_feature_value_search h feature ps)"

definition lys_feature_value ::
  "'p heap \<Rightarrow> 'p lys_module option \<Rightarrow> string option \<Rightarrow> int option" where
  "lys_feature_value h module feature =
     (case module of
        None \<Rightarrow> Some (- 1)
      | Some m \<Rightarrow>
          (case compiled m of
             None \<Rightarrow> Some (- 1)
           | Some m' \<Rightarrow>
               (case feature of
                  None \<Rightarrow> Some (- 1)
                | Some name \<Rightarrow>
                    if mod_features m' = [] then None
                    else Some (lys_feature_value_search h name (mod_features m')))))"

text \<open>
  \<open>lys_feature_change\<close>. One pass of the loop at the label \<open>run\<close> over the features of
  the module either leaves the function (\<open>Done\<close>, with the return code and the store) or
  reaches the end of the loop (\<open>Next\<close>, with the store, the set \<open>changed\<close> as the list it
  is used as, and \<open>disabled_count\<close>).
\<close>

datatype 'p run = Done LY_ERR "'p heap" | Next "'p heap" "'p list" nat

fun lys_feature_change_pass ::
  "bool \<Rightarrow> string \<Rightarrow> int \<Rightarrow> 'p list \<Rightarrow> 'p heap \<Rightarrow> 'p list \<Rightarrow> nat \<Rightarrow> 'p run" where
  "lys_feature_change_pass all name value [] h changed disabled_count =
     Next h changed disabled_count"
| "lys_feature_change_pass all name value (p # ps) h changed disabled_count =
     (if all \<or> f_name (h p) = name then
        if (value \<noteq> 0 \<and> is_enabled (h p)) \<or> (value = 0 \<and> \<not> is_enabled (h p)) then
          (if all then lys_feature_change_pass all name value ps h changed disabled_count
           else Done LY_SUCCESS h)
        else if value \<noteq> 0 \<and> \<not> iffeatures_true h (f_iffeatures (h p)) then
          (if all then lys_feature_change_pass all name value ps h changed (disabled_count + 1)
           else Done LY_EDENIED h)
        else
          (let h' = h(p := (if value \<noteq> 0 then set_enabled (h p) else clear_enabled (h p)));
               changed' = changed @ [p]
           in if \<not> all then Next h' changed' disabled_count
              else lys_feature_change_pass all name value ps h' changed' disabled_count)
      else lys_feature_change_pass all name value ps h changed disabled_count)"

text \<open>"restore the original state": every member of \<open>changed\<close> is disabled again.\<close>

primrec lys_feature_restore :: "'p heap \<Rightarrow> 'p list \<Rightarrow> 'p heap" where
  "lys_feature_restore h [] = h"
| "lys_feature_restore h (p # ps) = lys_feature_restore (h(p := clear_enabled (h p))) ps"

text \<open>The loop over \<open>f->depfeatures\<close> of one changed feature: an enabled dependent
  feature with an if-feature expression of value 0 is disabled and appended to \<open>changed\<close>.\<close>

fun lys_feature_deps :: "'p list \<Rightarrow> 'p heap \<Rightarrow> 'p list \<Rightarrow> 'p heap \<times> 'p list" where
  "lys_feature_deps [] h changed = (h, changed)"
| "lys_feature_deps (df # dfs) h changed =
     (if \<not> is_enabled (h df) then lys_feature_deps dfs h changed
      else if \<not> iffeatures_true h (f_iffeatures (h df)) then
        lys_feature_deps dfs (h(df := clear_enabled (h df))) (changed @ [df])
      else lys_feature_deps dfs h changed)"

subsection \<open>The enabled bit\<close>

lemma is_enabled_set [simp]: "is_enabled (set_enabled f)"
  by (simp add: is_enabled_def set_enabled_def LYS_FENABLED_def word_ao_absorbs)

lemma is_enabled_clear [simp]: "\<not> is_enabled (clear_enabled f)"
  by (simp add: is_enabled_def clear_enabled_def LYS_FENABLED_def word_bw_assocs)

lemma word_and_not_id: "(x::'a::len word) AND m = 0 \<Longrightarrow> x AND NOT m = x"
  by (metis (no_types, lifting) bit.conj_cancel_left bit.conj_disj_distrib
    bit.de_Morgan_conj word_ao_absorbs(2) word_not_not)

lemma word_or_and_not: "(x::'a::len word) AND m = 0 \<Longrightarrow> (x OR m) AND NOT m = x"
  by (simp add: bit.conj_disj_distrib2 word_and_not_id)

lemma clear_enabled_id: "\<not> is_enabled f \<Longrightarrow> clear_enabled f = f"
  by (simp add: is_enabled_def clear_enabled_def word_and_not_id)

lemma clear_set_enabled: "\<not> is_enabled f \<Longrightarrow> clear_enabled (set_enabled f) = f"
  by (simp add: is_enabled_def clear_enabled_def set_enabled_def word_or_and_not)

lemma card_enabled_clear:
  fixes h :: "'p::finite heap"
  assumes "is_enabled (h p)"
  shows "Suc (card {q. is_enabled ((h(p := clear_enabled (h p))) q)}) = card {q. is_enabled (h q)}"
proof -
  have "{q. is_enabled ((h(p := clear_enabled (h p))) q)} = {q. is_enabled (h q)} - {p}"
    by auto
  moreover have "p \<in> {q. is_enabled (h q)}" using assms by simp
  ultimately show ?thesis
    by (metis card_Suc_Diff1 finite)
qed

lemma card_disabled_set:
  fixes h :: "'p::finite heap"
  assumes "\<not> is_enabled (h p)"
  shows "Suc (card {q. \<not> is_enabled ((h(p := set_enabled (h p))) q)}) = card {q. \<not> is_enabled (h q)}"
proof -
  have "{q. \<not> is_enabled ((h(p := set_enabled (h p))) q)} = {q. \<not> is_enabled (h q)} - {p}"
    by auto
  moreover have "p \<in> {q. \<not> is_enabled (h q)}" using assms by simp
  ultimately show ?thesis
    by (metis card_Suc_Diff1 finite)
qed

lemma lys_feature_deps_measure:
  fixes h :: "'p::finite heap"
  assumes "lys_feature_deps dfs h changed = (h', changed')"
  shows "card {q. is_enabled (h' q)} + length changed' = card {q. is_enabled (h q)} + length changed"
  using assms
proof (induction dfs arbitrary: h changed)
  case Nil
  then show ?case by simp
next
  case (Cons df dfs)
  show ?case
  proof (cases "is_enabled (h df) \<and> \<not> iffeatures_true h (f_iffeatures (h df))")
    case True
    then have en: "is_enabled (h df)" by simp
    from True Cons.prems
    have "lys_feature_deps dfs (h(df := clear_enabled (h df))) (changed @ [df]) = (h', changed')"
      by simp
    from Cons.IH [OF this] card_enabled_clear [of h df, OF en]
    show ?thesis by simp
  next
    case False
    with Cons.prems have "lys_feature_deps dfs h changed = (h', changed')"
      by (auto split: if_splits)
    from Cons.IH [OF this] show ?thesis .
  qed
qed

text \<open>"reflect change(s) in the dependent features": the loop over \<open>changed\<close>, which grows
  while the loop runs. It ends because every feature appended was enabled and is disabled.\<close>

function lys_feature_propagate :: "'p::finite heap \<Rightarrow> 'p list \<Rightarrow> nat \<Rightarrow> 'p heap" where
  "lys_feature_propagate h changed u =
     (if u < length changed then
        (case lys_feature_deps (f_depfeatures (h (changed ! u))) h changed of
           (h', changed') \<Rightarrow> lys_feature_propagate h' changed' (Suc u))
      else h)"
  by pat_completeness auto
termination
  apply (relation "measure (\<lambda>(h, changed, u). card {q. is_enabled (h q)} + length changed - u)")
   apply simp
  subgoal for h changed u h' changed'
    using lys_feature_deps_measure [of "f_depfeatures (h (changed ! u))" h changed h' changed']
    by simp
  done

lemma lys_feature_change_pass_measure:
  fixes h :: "'p::finite heap"
  assumes "lys_feature_change_pass all name value ps h changed dc = Next h' changed' dc'"
    and "value \<noteq> 0"
  shows "(h' = h \<and> changed' = changed) \<or>
         card {q. \<not> is_enabled (h' q)} < card {q. \<not> is_enabled (h q)}"
  using assms(1)
proof (induction ps arbitrary: h changed dc)
  case Nil
  then show ?case by simp
next
  case (Cons p ps)
  let ?hp = "h(p := set_enabled (h p))"
  have step: "\<not> is_enabled (h p) \<Longrightarrow> card {q. \<not> is_enabled (?hp q)} < card {q. \<not> is_enabled (h q)}"
    using card_disabled_set [of h p] by linarith
  consider (same) "lys_feature_change_pass all name value ps h changed dc = Next h' changed' dc'"
    | (count) "lys_feature_change_pass all name value ps h changed (dc + 1) = Next h' changed' dc'"
    | (flip1) "\<not> is_enabled (h p)" "h' = ?hp"
    | (flip) "\<not> is_enabled (h p)"
        "lys_feature_change_pass all name value ps ?hp (changed @ [p]) dc = Next h' changed' dc'"
    using Cons.prems assms(2) by (auto simp: Let_def split: if_splits)
  then show ?case
  proof cases
    case same
    from Cons.IH [OF this] show ?thesis .
  next
    case count
    from Cons.IH [OF this] show ?thesis .
  next
    case flip1
    then show ?thesis using step by simp
  next
    case flip
    from Cons.IH [OF flip(2)] step [OF flip(1)] show ?thesis by auto
  qed
qed

text \<open>The body of \<open>lys_feature_change\<close> from the label \<open>run\<close> on; \<open>goto run\<close> is the
  recursive call. Each further pass follows one that enabled a feature.\<close>

function lys_feature_change_run ::
  "bool \<Rightarrow> string \<Rightarrow> int \<Rightarrow> 'p::finite lysc_module \<Rightarrow> 'p heap \<Rightarrow> 'p list \<Rightarrow> nat
   \<Rightarrow> LY_ERR \<times> 'p heap" where
  "lys_feature_change_run all name value m h changed changed_count =
     (case lys_feature_change_pass all name value (mod_features m) h changed 0 of
        Done e h' \<Rightarrow> (e, h')
      | Next h' changed' disabled_count \<Rightarrow>
          if \<not> all \<and> changed' = [] then (LY_EINVAL, h')
          else if value \<noteq> 0 \<and> all \<and> disabled_count \<noteq> 0 then
            (if changed_count = length changed' then
               (LY_EDENIED, lys_feature_restore h' changed')
             else lys_feature_change_run all name value m h' changed' (length changed'))
          else (LY_SUCCESS, lys_feature_propagate h' changed' 0))"
  by pat_completeness auto
termination
  apply (relation "measure (\<lambda>(all, name, value, m, h, changed, changed_count).
           2 * card {q. \<not> is_enabled (h q)} + (if changed_count = length changed then 0 else 1))")
   apply simp
  subgoal for all name v m h changed changed_count h' changed' dc
    using lys_feature_change_pass_measure [of all name v "mod_features m" h changed 0 h' changed' dc]
    by auto
  done

text \<open>\<open>lys_feature_change\<close> itself, and the two API functions with their argument checks
  (\<open>None\<close> is a \<open>NULL\<close> argument).\<close>

definition lys_feature_change ::
  "'p::finite heap \<Rightarrow> 'p lysc_module \<Rightarrow> string \<Rightarrow> int \<Rightarrow> LY_ERR \<times> 'p heap" where
  "lys_feature_change h m name value =
     (if mod_features m = [] then (LY_EINVAL, h)
      else lys_feature_change_run (name = ''*'') name value m h [] 0)"

definition lys_feature_enable ::
  "'p::finite heap \<Rightarrow> 'p lys_module option \<Rightarrow> string option \<Rightarrow> LY_ERR \<times> 'p heap" where
  "lys_feature_enable h module feature =
     (case module of
        None \<Rightarrow> (LY_EINVAL, h)
      | Some m \<Rightarrow>
          (case compiled m of
             None \<Rightarrow> (LY_EINVAL, h)
           | Some m' \<Rightarrow>
               (case feature of
                  None \<Rightarrow> (LY_EINVAL, h)
                | Some name \<Rightarrow> lys_feature_change h m' name 1)))"

definition lys_feature_disable ::
  "'p::finite heap \<Rightarrow> 'p lys_module option \<Rightarrow> string option \<Rightarrow> LY_ERR \<times> 'p heap" where
  "lys_feature_disable h module feature =
     (case module of
        None \<Rightarrow> (LY_EINVAL, h)
      | Some m \<Rightarrow>
          (case compiled m of
             None \<Rightarrow> (LY_EINVAL, h)
           | Some m' \<Rightarrow>
               (case feature of
                  None \<Rightarrow> (LY_EINVAL, h)
                | Some name \<Rightarrow> lys_feature_change h m' name 0)))"

text \<open>
  \<open>LYS_FENABLED\<close> is written in \<open>lys_feature_change\<close> only: the compiler leaves every feature
  disabled, and the store changes through the calls of \<open>lys_feature_enable\<close> and
  \<open>lys_feature_disable\<close>. \<open>lys_feature_calls\<close> is the store after a sequence of such calls, each
  with its module, name and value, whatever they return.
\<close>

fun lys_feature_calls ::
  "'p::finite heap \<Rightarrow> ('p lysc_module \<times> string \<times> int) list \<Rightarrow> 'p heap" where
  "lys_feature_calls h [] = h"
| "lys_feature_calls h ((m, name, value) # calls) =
     lys_feature_calls (snd (lys_feature_change h m name value)) calls"

declare lys_feature_propagate.simps [simp del]
declare lys_feature_change_run.simps [simp del]
declare lys_feature_calls.simps [simp del]

section \<open>Enumerations and bits\<close>

datatype LY_DATA_TYPE =
    LY_TYPE_UNKNOWN | LY_TYPE_BINARY | LY_TYPE_BITS | LY_TYPE_BOOL | LY_TYPE_DEC64
  | LY_TYPE_EMPTY | LY_TYPE_ENUM | LY_TYPE_IDENT | LY_TYPE_INST | LY_TYPE_LEAFREF
  | LY_TYPE_STRING | LY_TYPE_UNION | LY_TYPE_INT8 | LY_TYPE_UINT8 | LY_TYPE_INT16
  | LY_TYPE_UINT16 | LY_TYPE_INT32 | LY_TYPE_UINT32 | LY_TYPE_INT64 | LY_TYPE_UINT64









section \<open>Ranges and lengths\<close>

text \<open>
  One interval of a compiled range (\<open>struct lysc_range_part\<close>). Each bound is a union of an
  \<open>int64_t\<close> and a \<open>uint64_t\<close>: 64 bits, compared signed (\<open><s\<close>) or unsigned (\<open><\<close>).
\<close>

record lysc_range_part =
  min_64 :: "64 word"
  max_64 :: "64 word"

definition c_isspace :: "char \<Rightarrow> bool" where
  "c_isspace c \<longleftrightarrow> c \<in> {CHR '' '', CHR 0x09, CHR 0x0A, CHR 0x0B, CHR 0x0C, CHR 0x0D}"

definition c_isdigit :: "char \<Rightarrow> bool" where
  "c_isdigit c \<longleftrightarrow> c \<in> set ''0123456789''"

text \<open>
  \<open>range_part_check_value_syntax\<close>: the length of the number at the start of \<open>value\<close> and its
  copy. For a \<open>decimal64\<close> number with a fraction the C code writes through
  \<open>*valcopy[(*len) - 1]\<close>, outside the object \<open>valcopy\<close> points to; that is \<open>None\<close>.
\<close>

definition range_part_check_value_syntax ::
  "LY_DATA_TYPE \<Rightarrow> string \<Rightarrow> (LY_ERR + nat \<times> string) option" where
  "range_part_check_value_syntax basetype value =
     (case value of
        [] \<Rightarrow> Some (Inl LY_EVALID)
      | c # cs \<Rightarrow>
          if \<not> c_isdigit c \<and> c \<noteq> CHR ''-'' \<and> c \<noteq> CHR ''+'' then Some (Inl LY_EVALID)
          else
            (let len = (if c = CHR ''-'' \<or> c = CHR ''+'' then 1 else 0);
                 len = len + length (takeWhile c_isdigit (drop len value))
             in case drop len value of
                  d # e # _ \<Rightarrow>
                    if basetype \<noteq> LY_TYPE_DEC64 \<or> d \<noteq> CHR ''.'' \<or> \<not> c_isdigit e
                    then Some (Inr (len, take len value))
                    else None
                | _ \<Rightarrow> Some (Inr (len, take len value))))"

definition range_part_check_ascendance :: "bool \<Rightarrow> 64 word \<Rightarrow> 64 word \<Rightarrow> LY_ERR" where
  "range_part_check_ascendance unsigned_value value prev_value =
     (if unsigned_value then (if value \<le> prev_value then LY_EEXIST else LY_SUCCESS)
      else (if value \<le>s prev_value then LY_EEXIST else LY_SUCCESS))"

text \<open>The cases of the \<open>switch\<close> of \<open>range_part_minmax\<close>, which differ in the signedness and
  the limits of the type only; \<open>None\<close> is its \<open>default\<close>.\<close>

fun range_limits :: "LY_DATA_TYPE \<Rightarrow> (bool \<times> 64 word \<times> 64 word) option" where
  "range_limits LY_TYPE_BINARY = Some (True, 0, 18446744073709551615)"
| "range_limits LY_TYPE_DEC64 = Some (False, - 9223372036854775807 - 1, 9223372036854775807)"
| "range_limits LY_TYPE_INT8 = Some (False, - 128, 127)"
| "range_limits LY_TYPE_INT16 = Some (False, - 32768, 32767)"
| "range_limits LY_TYPE_INT32 = Some (False, - 2147483648, 2147483647)"
| "range_limits LY_TYPE_INT64 = Some (False, - 9223372036854775807 - 1, 9223372036854775807)"
| "range_limits LY_TYPE_UINT8 = Some (True, 0, 255)"
| "range_limits LY_TYPE_UINT16 = Some (True, 0, 65535)"
| "range_limits LY_TYPE_UINT32 = Some (True, 0, 4294967295)"
| "range_limits LY_TYPE_UINT64 = Some (True, 0, 18446744073709551615)"
| "range_limits LY_TYPE_STRING = Some (True, 0, 18446744073709551615)"
| "range_limits _ = None"

text \<open>
  \<open>range_part_minmax\<close> sets the lower or the upper bound (when \<open>max\<close>, here \<open>max_bound\<close>, is set) of \<open>part\<close> from the number
  at the start of \<open>value\<close>, or from the limit of the type when \<open>value\<close> is \<open>NULL\<close>, and
  returns the part with the number of characters read. \<open>ly_parse_int\<close> and \<open>ly_parse_uint\<close>
  (\<open>common.c\<close>) are not among the sources; they are the arguments \<open>parse_int\<close> (the text,
  the least and the greatest value) and \<open>parse_uint\<close> (the text and the greatest value),
  which return an error and leave the bound as it is, or return the number. When the part
  is not the first, the result of the parser is overwritten by that of
  \<open>range_part_check_ascendance\<close>, as in the C code. At the label \<open>error\<close> the messages for
  \<open>LY_EDENIED\<close>, \<open>LY_EVALID\<close> and \<open>LY_EEXIST\<close> print \<open>valcopy ? valcopy : *value\<close>; with
  \<open>value == NULL\<close> (the keywords \<open>min\<close> and \<open>max\<close>) there is no copy and \<open>*value\<close> reads
  through \<open>NULL\<close>, which is \<open>None\<close>.
\<close>

definition range_part_minmax ::
  "(string \<Rightarrow> 64 word \<Rightarrow> 64 word \<Rightarrow> LY_ERR + 64 word) \<Rightarrow> (string \<Rightarrow> 64 word \<Rightarrow> LY_ERR + 64 word)
   \<Rightarrow> lysc_range_part \<Rightarrow> bool \<Rightarrow> 64 word \<Rightarrow> LY_DATA_TYPE \<Rightarrow> bool \<Rightarrow> string option
   \<Rightarrow> (LY_ERR + lysc_range_part \<times> nat) option" where
  "range_part_minmax parse_int parse_uint part max_bound prev basetype first value =
     (case (case value of
              None \<Rightarrow> Some (Inr (0, None))
            | Some s \<Rightarrow>
                (case range_part_check_value_syntax basetype s of
                   None \<Rightarrow> None
                 | Some (Inl err) \<Rightarrow> Some (Inl err)
                 | Some (Inr (len, valcopy)) \<Rightarrow> Some (Inr (len, Some valcopy)))) of
        None \<Rightarrow> None
      | Some (Inl err) \<Rightarrow> Some (Inl err)
      | Some (Inr (len, valcopy)) \<Rightarrow>
          (case range_limits basetype of
             None \<Rightarrow> Some (Inl LY_EINT)
           | Some (uns, lo, hi) \<Rightarrow>
               (let (ret, part) =
                      (case valcopy of
                         Some str \<Rightarrow>
                           (case (if uns then parse_uint str hi else parse_int str lo hi) of
                              Inl err \<Rightarrow> (err, part)
                            | Inr n \<Rightarrow>
                                (LY_SUCCESS, if max_bound then part\<lparr>max_64 := n\<rparr> else part\<lparr>min_64 := n\<rparr>))
                       | None \<Rightarrow>
                           (LY_SUCCESS, if max_bound then part\<lparr>max_64 := hi\<rparr> else part\<lparr>min_64 := lo\<rparr>));
                    ret = (if \<not> first
                           then range_part_check_ascendance uns
                                  (if max_bound then max_64 part else min_64 part) prev
                           else ret)
                in if ret = LY_SUCCESS then Some (Inr (part, len))
                   else if (ret = LY_EDENIED \<or> ret = LY_EVALID \<or> ret = LY_EEXIST) \<and> value = None
                   then None
                   else Some (Inl ret))))"

lemma range_part_check_value_syntax_len:
  "range_part_check_value_syntax basetype value = Some (Inr (len, valcopy)) \<Longrightarrow> 0 < len"
  by (auto simp: range_part_check_value_syntax_def Let_def split: list.splits if_splits)

lemma range_part_minmax_len:
  "range_part_minmax parse_int parse_uint part max_bound prev basetype first (Some s) = Some (Inr (part', len))
   \<Longrightarrow> 0 < len"
  by (auto simp: range_part_minmax_def Let_def dest: range_part_check_value_syntax_len
      split: option.splits sum.splits prod.splits if_splits)

text \<open>
  The loop \<open>while(1)\<close> of \<open>lys_compile_type_range\<close> over the expression. \<open>parts\<close> is the array
  of the parts read, a new part is zeroed (\<open>LY_ARRAY_NEW_GOTO\<close>), and \<open>parts_done\<close> counts the
  parts closed by \<open>|\<close> or by the end. Every failure leaves through \<open>cleanup\<close> with \<open>ret\<close> as
  it was initialised, \<open>LY_EVALID\<close>. The result is the parts and \<open>parts_done\<close>. A read of
  \<open>parts[LY_ARRAY_SIZE(parts) - 1]\<close> or \<open>[... - 2]\<close> outside the array is \<open>None\<close>.
\<close>

function lys_compile_type_range_parse ::
  "(string \<Rightarrow> 64 word \<Rightarrow> 64 word \<Rightarrow> LY_ERR + 64 word) \<Rightarrow> (string \<Rightarrow> 64 word \<Rightarrow> LY_ERR + 64 word)
   \<Rightarrow> LY_DATA_TYPE \<Rightarrow> string \<Rightarrow> lysc_range_part list \<Rightarrow> bool \<Rightarrow> nat
   \<Rightarrow> (LY_ERR + lysc_range_part list \<times> nat) option" where
  "lys_compile_type_range_parse parse_int parse_uint basetype expr parts range_expected parts_done =
     (case expr of
        [] \<Rightarrow>
          if range_expected then Some (Inl LY_EVALID)
          else if parts = [] \<or> parts_done = length parts then Some (Inl LY_EVALID)
          else Some (Inr (parts, parts_done + 1))
      | c # cs \<Rightarrow>
          if c_isspace c then
            lys_compile_type_range_parse parse_int parse_uint basetype cs parts range_expected parts_done
          else if take 3 expr = ''min'' then
            (if parts \<noteq> [] then Some (Inl LY_EVALID)
             else
               (case range_part_minmax parse_int parse_uint \<lparr>min_64 = 0, max_64 = 0\<rparr> False 0
                       basetype True None of
                  None \<Rightarrow> None
                | Some (Inl err) \<Rightarrow> Some (Inl LY_EVALID)
                | Some (Inr (part, len)) \<Rightarrow>
                    lys_compile_type_range_parse parse_int parse_uint basetype (drop 3 expr)
                      (parts @ [part\<lparr>max_64 := min_64 part\<rparr>]) range_expected parts_done))
          else if c = CHR ''|'' then
            (if parts = [] \<or> range_expected then Some (Inl LY_EVALID)
             else lys_compile_type_range_parse parse_int parse_uint basetype cs parts range_expected
                    (parts_done + 1))
          else if take 2 expr = ''..'' then
            (if parts = [] \<or> length parts = parts_done then Some (Inl LY_EVALID)
             else lys_compile_type_range_parse parse_int parse_uint basetype
                    (dropWhile c_isspace (drop 2 expr)) parts True parts_done)
          else if c_isdigit c \<or> c = CHR ''-'' \<or> c = CHR ''+'' then
            (if range_expected then
               (if parts = [] then None
                else
                  (case range_part_minmax parse_int parse_uint (last parts) True (min_64 (last parts))
                          basetype False (Some expr) of
                     None \<Rightarrow> None
                   | Some (Inl err) \<Rightarrow> Some (Inl LY_EVALID)
                   | Some (Inr (part, len)) \<Rightarrow>
                       lys_compile_type_range_parse parse_int parse_uint basetype (drop len expr)
                         (butlast parts @ [part]) False parts_done))
             else if parts_done \<noteq> 0 \<and> parts = [] then None
             else
               (case range_part_minmax parse_int parse_uint \<lparr>min_64 = 0, max_64 = 0\<rparr> False
                       (if parts_done \<noteq> 0 then max_64 (last parts) else 0)
                       basetype (parts_done = 0) (Some expr) of
                  None \<Rightarrow> None
                | Some (Inl err) \<Rightarrow> Some (Inl LY_EVALID)
                | Some (Inr (part, len)) \<Rightarrow>
                    lys_compile_type_range_parse parse_int parse_uint basetype (drop len expr)
                      (parts @ [part\<lparr>max_64 := min_64 part\<rparr>]) range_expected parts_done))
          else if take 3 expr = ''max'' then
            (if dropWhile c_isspace (drop 3 expr) \<noteq> [] then Some (Inl LY_EVALID)
             else if range_expected then
               (if parts = [] then None
                else
                  (case range_part_minmax parse_int parse_uint (last parts) True (min_64 (last parts))
                          basetype False None of
                     None \<Rightarrow> None
                   | Some (Inl err) \<Rightarrow> Some (Inl LY_EVALID)
                   | Some (Inr (part, len)) \<Rightarrow>
                       lys_compile_type_range_parse parse_int parse_uint basetype []
                         (butlast parts @ [part]) False parts_done))
             else if parts_done \<noteq> 0 \<and> parts = [] then None
             else
               (case range_part_minmax parse_int parse_uint \<lparr>min_64 = 0, max_64 = 0\<rparr> True
                       (if parts_done \<noteq> 0 then max_64 (last parts) else 0)
                       basetype (parts_done = 0) None of
                  None \<Rightarrow> None
                | Some (Inl err) \<Rightarrow> Some (Inl LY_EVALID)
                | Some (Inr (part, len)) \<Rightarrow>
                    lys_compile_type_range_parse parse_int parse_uint basetype []
                      (parts @ [part\<lparr>min_64 := max_64 part\<rparr>]) range_expected parts_done))
          else Some (Inl LY_EVALID))"
  by pat_completeness auto
termination
  apply (relation "measure (\<lambda>(parse_int, parse_uint, basetype, expr, parts, range_expected, parts_done). length expr)")
  apply (auto dest!: range_part_minmax_len)
  apply (metis dropWhile_eq_drop diff_le_self le_imp_less_Suc less_Suc_eq_le length_drop order.trans le_SucI)+
  done

text \<open>The signedness of the comparison with the base range; \<open>None\<close> is the \<open>default\<close> of
  the \<open>switch\<close>.\<close>

fun range_unsigned :: "LY_DATA_TYPE \<Rightarrow> bool option" where
  "range_unsigned LY_TYPE_BINARY = Some True"
| "range_unsigned LY_TYPE_UINT8 = Some True"
| "range_unsigned LY_TYPE_UINT16 = Some True"
| "range_unsigned LY_TYPE_UINT32 = Some True"
| "range_unsigned LY_TYPE_UINT64 = Some True"
| "range_unsigned LY_TYPE_STRING = Some True"
| "range_unsigned LY_TYPE_DEC64 = Some False"
| "range_unsigned LY_TYPE_INT8 = Some False"
| "range_unsigned LY_TYPE_INT16 = Some False"
| "range_unsigned LY_TYPE_INT32 = Some False"
| "range_unsigned LY_TYPE_INT64 = Some False"
| "range_unsigned _ = None"

definition range_lt :: "bool \<Rightarrow> 64 word \<Rightarrow> 64 word \<Rightarrow> bool" where
  "range_lt uns a b = ((uns \<and> a < b) \<or> (\<not> uns \<and> a <s b))"

text \<open>
  The walk of the two cursors \<open>u\<close> (derived parts) and \<open>v\<close> (parts of the base range);
  \<open>--u; continue\<close> keeps \<open>u\<close>. \<open>Some True\<close>: the loop ends with \<open>u = parts_done\<close>;
  \<open>Some False\<close>: \<open>baseerror\<close>; \<open>None\<close>: \<open>parts[u]\<close> is read outside the array.
\<close>

function lys_compile_type_range_walk ::
  "bool \<Rightarrow> lysc_range_part list \<Rightarrow> nat \<Rightarrow> lysc_range_part list \<Rightarrow> nat \<Rightarrow> nat \<Rightarrow> bool option" where
  "lys_compile_type_range_walk uns parts parts_done base u v =
     (if u < parts_done \<and> v < length base then
        (if length parts \<le> u then None
         else if range_lt uns (min_64 (parts ! u)) (min_64 (base ! v)) then Some False
         else if min_64 (base ! v) = max_64 (base ! v) then
           (if min_64 (base ! v) = min_64 (parts ! u) then
              (if min_64 (parts ! u) \<noteq> max_64 (parts ! u) then Some False
               else lys_compile_type_range_walk uns parts parts_done base (Suc u) (Suc v))
            else lys_compile_type_range_walk uns parts parts_done base u (Suc v))
         else if min_64 (parts ! u) = max_64 (parts ! u) then
           (if range_lt uns (max_64 (base ! v)) (max_64 (parts ! u))
            then lys_compile_type_range_walk uns parts parts_done base u (Suc v)
            else lys_compile_type_range_walk uns parts parts_done base (Suc u) v)
         else if range_lt uns (max_64 (base ! v)) (max_64 (parts ! u)) then
           (if range_lt uns (max_64 (base ! v)) (min_64 (parts ! u))
            then lys_compile_type_range_walk uns parts parts_done base u (Suc v)
            else Some False)
         else lys_compile_type_range_walk uns parts parts_done base (Suc u) v)
      else Some (u = parts_done))"
  by pat_completeness auto
termination
  by (relation "measure (\<lambda>(uns, parts, parts_done, base, u, v). (parts_done - u) + (length base - v))")
     auto

text \<open>\<open>lys_compile_type_range\<close>: the expression \<open>range_p->arg\<close>, the base type, and the parts
  of the base range (\<open>None\<close> when \<open>base_range\<close> is \<open>NULL\<close>); the result is the return code or
  the parts stored in \<open>*range\<close>. The walk starts with
  \<open>LY_ARRAY_SIZE(base_range->parts)\<close>; a base range without parts, which no compilation
  produces, has \<open>parts == NULL\<close>, and the result is \<open>None\<close>.\<close>

definition lys_compile_type_range ::
  "(string \<Rightarrow> 64 word \<Rightarrow> 64 word \<Rightarrow> LY_ERR + 64 word) \<Rightarrow> (string \<Rightarrow> 64 word \<Rightarrow> LY_ERR + 64 word)
   \<Rightarrow> string \<Rightarrow> LY_DATA_TYPE \<Rightarrow> lysc_range_part list option
   \<Rightarrow> (LY_ERR + lysc_range_part list) option" where
  "lys_compile_type_range parse_int parse_uint arg basetype base_range =
     (case lys_compile_type_range_parse parse_int parse_uint basetype arg [] False 0 of
        None \<Rightarrow> None
      | Some (Inl err) \<Rightarrow> Some (Inl err)
      | Some (Inr (parts, parts_done)) \<Rightarrow>
          (case base_range of
             None \<Rightarrow> Some (Inr parts)
           | Some base \<Rightarrow>
               (case range_unsigned basetype of
                  None \<Rightarrow> Some (Inl LY_EINT)
                | Some uns \<Rightarrow>
                    if base = [] then None
                    else
                      (case lys_compile_type_range_walk uns parts parts_done base 0 0 of
                         None \<Rightarrow> None
                       | Some False \<Rightarrow> Some (Inl LY_EVALID)
                       | Some True \<Rightarrow> Some (Inr parts)))))"

text \<open>
  Modelled from the spec: \<open>ly_parse_uint\<close> and \<open>ly_parse_int\<close> of \<open>common.c\<close>, which is not
  among the sources. By the spec a value is a "decimal integer (optionally signed)", and
  the compiler fails with "\<open>Denied\<close> on out-of-range literals" and on malformed text with
  a syntax error, for which the C code tests \<open>LY_EVALID\<close>.
\<close>

definition digit_val :: "char \<Rightarrow> nat" where
  "digit_val c = of_char c - of_char CHR ''0''"

definition decimal_val :: "string \<Rightarrow> nat" where
  "decimal_val s = foldl (\<lambda>n c. 10 * n + digit_val c) 0 s"

definition ly_parse_uint :: "string \<Rightarrow> 64 word \<Rightarrow> LY_ERR + 64 word" where
  "ly_parse_uint str hi =
     (let neg = (take 1 str = ''-'');
          digits = (if take 1 str = ''-'' \<or> take 1 str = ''+'' then drop 1 str else str)
      in if digits = [] \<or> \<not> list_all c_isdigit digits then Inl LY_EVALID
         else if unat hi < decimal_val digits \<or> (neg \<and> decimal_val digits \<noteq> 0) then Inl LY_EDENIED
         else Inr (word_of_nat (decimal_val digits)))"

definition ly_parse_int :: "string \<Rightarrow> 64 word \<Rightarrow> 64 word \<Rightarrow> LY_ERR + 64 word" where
  "ly_parse_int str lo hi =
     (let neg = (take 1 str = ''-'');
          digits = (if take 1 str = ''-'' \<or> take 1 str = ''+'' then drop 1 str else str);
          n = (if neg then - int (decimal_val digits) else int (decimal_val digits))
      in if digits = [] \<or> \<not> list_all c_isdigit digits then Inl LY_EVALID
         else if n < sint lo \<or> sint hi < n then Inl LY_EDENIED
         else Inr (word_of_int n))"

section \<open>Patterns\<close>

text \<open>
  \<open>lys_compile_type_pattern_check\<close> adjusts the XSD expression to Perl syntax in two stages:
  it escapes and anchors the pattern (\<open>lys_pattern_perl_regex\<close> below), and then substitutes
  the Unicode blocks (\<open>pattern_ublocks\<close>). A C string is the list of its characters
  before the terminating NUL. The function gets a pointer into a string: \<open>pattern\<close> is
  \<open>mem + off\<close>; its one caller \<open>lys_compile_type_patterns\<close> passes \<open>&arg[1]\<close>, the argument of
  the parsed statement behind its first byte, which marks an inverted pattern.
\<close>

text \<open>The counting loop over \<open>strpbrk(ptr, "^$")\<close>.\<close>

primrec pattern_count :: "string \<Rightarrow> nat" where
  "pattern_count [] = 0"
| "pattern_count (c # cs) =
     (if c = CHR ''^'' \<or> c = CHR ''$'' then Suc (pattern_count cs) else pattern_count cs)"

text \<open>\<open>strncmp(pattern + strlen(pattern) - 2, ".*", 2)\<close> is not 0: the two bytes that end
  the string differ from \<open>.*\<close>. With fewer than two bytes between the start of \<open>mem\<close> and
  the end of the pattern the C code reads in front of the string; that is \<open>None\<close>.\<close>

definition pattern_anchor :: "string \<Rightarrow> nat \<Rightarrow> bool option" where
  "pattern_anchor mem off =
     (if length mem < 2 \<or> length mem < off then None
      else Some (drop (length mem - 2) mem \<noteq> ''.*''))"

text \<open>The loop over \<open>orig_ptr\<close>, which appends to the buffer \<open>perl_regex\<close>.\<close>

primrec pattern_copy :: "string \<Rightarrow> string \<Rightarrow> string" where
  "pattern_copy [] perl_regex = perl_regex"
| "pattern_copy (c # cs) perl_regex =
     (if c = CHR ''$'' then pattern_copy cs (perl_regex @ [CHR 0x5C, CHR ''$''])
      else if c = CHR ''^'' then pattern_copy cs (perl_regex @ [CHR 0x5C, CHR ''^''])
      else pattern_copy cs (perl_regex @ [c]))"

text \<open>The first stage, in front of the comment "substitute Unicode Character Blocks with
  exact Character Ranges": the buffer \<open>perl_regex\<close> as the substitution finds it.\<close>

definition lys_pattern_perl_regex :: "string \<Rightarrow> nat \<Rightarrow> string option" where
  "lys_pattern_perl_regex mem off =
     (let pattern = drop off mem in
      case pattern_anchor mem off of
        None \<Rightarrow> None
      | Some anchor \<Rightarrow>
          (let perl_regex = (if anchor then ''('' else []);
               perl_regex = pattern_copy pattern perl_regex
           in Some (if anchor then perl_regex @ '')$'' else perl_regex)))"

text \<open>\<open>strstr(perl_regex, "\\p{Is")\<close>: the index of the first Unicode block, if any. The
  loop that substitutes the blocks runs only while there is one.\<close>

fun pattern_ublock :: "string \<Rightarrow> nat option" where
  "pattern_ublock [] = None"
| "pattern_ublock (c # cs) =
     (if take 5 (c # cs) = [CHR 0x5C, CHR ''p'', CHR ''{'', CHR ''I'', CHR ''s''] then Some 0
      else map_option Suc (pattern_ublock cs))"

text \<open>
  The table \<open>ublock2urange\<close> of \<open>lys_compile_type_pattern_check\<close>: the names of the Unicode
  blocks with their ranges; \<open>urange lo hi\<close> is the C string \<open>"[\\x{lo}-\\x{hi}]"\<close> of
  \<open>URANGE_LEN\<close> characters.
\<close>

definition URANGE_LEN :: nat where
  "URANGE_LEN = 19"

definition urange :: "string \<Rightarrow> string \<Rightarrow> string" where
  "urange lo hi = ''['' @ CHR 0x5C # ''x{'' @ lo @ ''}-'' @ CHR 0x5C # ''x{'' @ hi @ ''}]''"

definition ublock2urange :: "(string \<times> string) list" where
  "ublock2urange =
     [(''BasicLatin'', urange ''0000'' ''007F''),
      (''Latin-1Supplement'', urange ''0080'' ''00FF''),
      (''LatinExtended-A'', urange ''0100'' ''017F''),
      (''LatinExtended-B'', urange ''0180'' ''024F''),
      (''IPAExtensions'', urange ''0250'' ''02AF''),
      (''SpacingModifierLetters'', urange ''02B0'' ''02FF''),
      (''CombiningDiacriticalMarks'', urange ''0300'' ''036F''),
      (''Greek'', urange ''0370'' ''03FF''),
      (''Cyrillic'', urange ''0400'' ''04FF''),
      (''Armenian'', urange ''0530'' ''058F''),
      (''Hebrew'', urange ''0590'' ''05FF''),
      (''Arabic'', urange ''0600'' ''06FF''),
      (''Syriac'', urange ''0700'' ''074F''),
      (''Thaana'', urange ''0780'' ''07BF''),
      (''Devanagari'', urange ''0900'' ''097F''),
      (''Bengali'', urange ''0980'' ''09FF''),
      (''Gurmukhi'', urange ''0A00'' ''0A7F''),
      (''Gujarati'', urange ''0A80'' ''0AFF''),
      (''Oriya'', urange ''0B00'' ''0B7F''),
      (''Tamil'', urange ''0B80'' ''0BFF''),
      (''Telugu'', urange ''0C00'' ''0C7F''),
      (''Kannada'', urange ''0C80'' ''0CFF''),
      (''Malayalam'', urange ''0D00'' ''0D7F''),
      (''Sinhala'', urange ''0D80'' ''0DFF''),
      (''Thai'', urange ''0E00'' ''0E7F''),
      (''Lao'', urange ''0E80'' ''0EFF''),
      (''Tibetan'', urange ''0F00'' ''0FFF''),
      (''Myanmar'', urange ''1000'' ''109F''),
      (''Georgian'', urange ''10A0'' ''10FF''),
      (''HangulJamo'', urange ''1100'' ''11FF''),
      (''Ethiopic'', urange ''1200'' ''137F''),
      (''Cherokee'', urange ''13A0'' ''13FF''),
      (''UnifiedCanadianAboriginalSyllabics'', urange ''1400'' ''167F''),
      (''Ogham'', urange ''1680'' ''169F''),
      (''Runic'', urange ''16A0'' ''16FF''),
      (''Khmer'', urange ''1780'' ''17FF''),
      (''Mongolian'', urange ''1800'' ''18AF''),
      (''LatinExtendedAdditional'', urange ''1E00'' ''1EFF''),
      (''GreekExtended'', urange ''1F00'' ''1FFF''),
      (''GeneralPunctuation'', urange ''2000'' ''206F''),
      (''SuperscriptsandSubscripts'', urange ''2070'' ''209F''),
      (''CurrencySymbols'', urange ''20A0'' ''20CF''),
      (''CombiningMarksforSymbols'', urange ''20D0'' ''20FF''),
      (''LetterlikeSymbols'', urange ''2100'' ''214F''),
      (''NumberForms'', urange ''2150'' ''218F''),
      (''Arrows'', urange ''2190'' ''21FF''),
      (''MathematicalOperators'', urange ''2200'' ''22FF''),
      (''MiscellaneousTechnical'', urange ''2300'' ''23FF''),
      (''ControlPictures'', urange ''2400'' ''243F''),
      (''OpticalCharacterRecognition'', urange ''2440'' ''245F''),
      (''EnclosedAlphanumerics'', urange ''2460'' ''24FF''),
      (''BoxDrawing'', urange ''2500'' ''257F''),
      (''BlockElements'', urange ''2580'' ''259F''),
      (''GeometricShapes'', urange ''25A0'' ''25FF''),
      (''MiscellaneousSymbols'', urange ''2600'' ''26FF''),
      (''Dingbats'', urange ''2700'' ''27BF''),
      (''BraillePatterns'', urange ''2800'' ''28FF''),
      (''CJKRadicalsSupplement'', urange ''2E80'' ''2EFF''),
      (''KangxiRadicals'', urange ''2F00'' ''2FDF''),
      (''IdeographicDescriptionCharacters'', urange ''2FF0'' ''2FFF''),
      (''CJKSymbolsandPunctuation'', urange ''3000'' ''303F''),
      (''Hiragana'', urange ''3040'' ''309F''),
      (''Katakana'', urange ''30A0'' ''30FF''),
      (''Bopomofo'', urange ''3100'' ''312F''),
      (''HangulCompatibilityJamo'', urange ''3130'' ''318F''),
      (''Kanbun'', urange ''3190'' ''319F''),
      (''BopomofoExtended'', urange ''31A0'' ''31BF''),
      (''EnclosedCJKLettersandMonths'', urange ''3200'' ''32FF''),
      (''CJKCompatibility'', urange ''3300'' ''33FF''),
      (''CJKUnifiedIdeographsExtensionA'', urange ''3400'' ''4DB5''),
      (''CJKUnifiedIdeographs'', urange ''4E00'' ''9FFF''),
      (''YiSyllables'', urange ''A000'' ''A48F''),
      (''YiRadicals'', urange ''A490'' ''A4CF''),
      (''HangulSyllables'', urange ''AC00'' ''D7A3''),
      (''PrivateUse'', urange ''E000'' ''F8FF''),
      (''CJKCompatibilityIdeographs'', urange ''F900'' ''FAFF''),
      (''AlphabeticPresentationForms'', urange ''FB00'' ''FB4F''),
      (''ArabicPresentationForms-A'', urange ''FB50'' ''FDFF''),
      (''CombiningHalfMarks'', urange ''FE20'' ''FE2F''),
      (''CJKCompatibilityForms'', urange ''FE30'' ''FE4F''),
      (''SmallFormVariants'', urange ''FE50'' ''FE6F''),
      (''ArabicPresentationForms-B'', urange ''FE70'' ''FEFE''),
      (''HalfwidthandFullwidthForms'', urange ''FF00'' ''FFEF'')]"

text \<open>\<open>strchr(ptr, '}')\<close>: the index of the first occurrence of the character.\<close>

primrec c_strchr :: "string \<Rightarrow> char \<Rightarrow> nat option" where
  "c_strchr [] c = None"
| "c_strchr (x # xs) c = (if x = c then Some 0 else map_option Suc (c_strchr xs c))"

text \<open>The loop over \<open>idx2 < start\<close>, which counts the brackets that are open in front of the
  block: \<open>[\<close> and \<open>]\<close> that no backslash precedes.\<close>

fun pattern_brackets :: "string \<Rightarrow> nat \<Rightarrow> int" where
  "pattern_brackets perl_regex 0 = 0"
| "pattern_brackets perl_regex (Suc idx2) =
     (let count = pattern_brackets perl_regex idx2;
          count = (if perl_regex ! idx2 = CHR ''['' \<and> (idx2 = 0 \<or> perl_regex ! (idx2 - 1) \<noteq> CHR 0x5C)
                   then count + 1 else count)
      in if perl_regex ! idx2 = CHR '']'' \<and> (idx2 = 0 \<or> perl_regex ! (idx2 - 1) \<noteq> CHR 0x5C)
         then count - 1 else count)"

text \<open>
  One turn of the loop \<open>while ((ptr = strstr(perl_regex, "\\p{Is")))\<close> for the block found at
  \<open>start\<close>: the end of the block behind the next \<open>}\<close>, the first entry of the table whose
  name the text behind \<open>\\p{Is\<close> starts with (\<open>strncmp\<close> over the length of the name), and
  the text with the block replaced by the range, without its brackets when a bracket is
  open. The buffer is enlarged before, so the text is all that changes.
\<close>

definition pattern_ublock_subst :: "string \<Rightarrow> nat \<Rightarrow> LY_ERR + string" where
  "pattern_ublock_subst perl_regex start =
     (case c_strchr (drop start perl_regex) CHR ''}'' of
        None \<Rightarrow> Inl LY_EVALID
      | Some k \<Rightarrow>
          (let stop = start + k + 1 in
           case find (\<lambda>(name, ur). prefix name (drop (start + 5) perl_regex)) ublock2urange of
             None \<Rightarrow> Inl LY_EVALID
           | Some (name, ur) \<Rightarrow>
               if pattern_brackets perl_regex start \<noteq> 0
               then Inr (take start perl_regex @ take (URANGE_LEN - 2) (drop 1 ur)
                         @ drop stop perl_regex)
               else Inr (take start perl_regex @ take URANGE_LEN ur @ drop stop perl_regex)))"

text \<open>The number of the positions at which \<open>\\p{Is\<close> starts; every turn of the loop
  removes the first of them and adds none.\<close>

primrec ublock_count :: "string \<Rightarrow> nat" where
  "ublock_count [] = 0"
| "ublock_count (c # cs) =
     (if take 5 (c # cs) = [CHR 0x5C, CHR ''p'', CHR ''{'', CHR ''I'', CHR ''s''] then 1 else 0)
     + ublock_count cs"

definition ublock_free :: "string \<Rightarrow> bool" where
  "ublock_free r \<longleftrightarrow>
     r \<noteq> [] \<and> hd r \<notin> {CHR ''p'', CHR ''{'', CHR ''I'', CHR ''s''} \<and> CHR ''p'' \<notin> set r \<and>
     last r \<noteq> CHR 0x5C"

subsection \<open>The substitution ends\<close>

lemma ublock2urange_free:
  "list_all (\<lambda>(name, ur). ublock_free (take URANGE_LEN ur) \<and>
      ublock_free (take (URANGE_LEN - 2) (drop 1 ur))) ublock2urange"
  by code_simp

lemma ublock_count_append: "ublock_count ys \<le> ublock_count (xs @ ys)"
  by (induction xs) auto

lemma pattern_ublock_Some:
  "pattern_ublock s = Some start \<Longrightarrow>
   start < length s \<and> ublock_count s = Suc (ublock_count (drop (Suc start) s))"
proof (induction s arbitrary: start)
  case Nil
  then show ?case by simp
next
  case (Cons c cs)
  show ?case
  proof (cases "take 5 (c # cs) = [CHR 0x5C, CHR ''p'', CHR ''{'', CHR ''I'', CHR ''s'']")
    case True
    with Cons.prems have "start = 0" by simp
    with True show ?thesis by simp
  next
    case False
    with Cons.prems obtain k where k: "pattern_ublock cs = Some k" "start = Suc k"
      by auto
    from Cons.IH [OF k(1)] k(2) False show ?thesis by simp
  qed
qed

lemma take5_split:
  assumes "take 5 (xs @ ys) = [CHR 0x5C, CHR ''p'', CHR ''{'', CHR ''I'', CHR ''s'']"
    and "xs \<noteq> []" and "take 5 (xs @ zs) \<noteq> [CHR 0x5C, CHR ''p'', CHR ''{'', CHR ''I'', CHR ''s'']"
  shows "ys \<noteq> [] \<and> hd ys \<in> {CHR ''p'', CHR ''{'', CHR ''I'', CHR ''s''}"
proof -
  let ?pat = "[CHR 0x5C, CHR ''p'', CHR ''{'', CHR ''I'', CHR ''s'']"
  have short: "length xs < 5"
  proof (rule ccontr)
    assume "\<not> length xs < 5"
    then have "take 5 (xs @ ys) = take 5 (xs @ zs)" by simp
    with assms(1,3) show False by simp
  qed
  have "length (take 5 (xs @ ys)) = 5" using assms(1) by simp
  with short have ys: "ys \<noteq> []" by auto
  have "?pat ! length xs = take 5 (xs @ ys) ! length xs" using assms(1) by simp
  also have "\<dots> = (xs @ ys) ! length xs" using short by (intro nth_take)
  also have "\<dots> = hd ys" using ys by (simp add: nth_append hd_conv_nth)
  finally have hd: "hd ys = ?pat ! length xs" by simp
  from short assms(2) consider "length xs = 1" | "length xs = 2" | "length xs = 3" | "length xs = 4"
    by (cases xs) (auto simp: less_Suc_eq numeral_eq_Suc)
  then have "?pat ! length xs \<in> {CHR ''p'', CHR ''{'', CHR ''I'', CHR ''s''}"
    by cases simp_all
  with hd ys show ?thesis by simp
qed

lemma ublock_count_front:
  assumes "pattern_ublock (a @ t) = Some (length a)" and "r \<noteq> []"
    and "hd r \<notin> {CHR ''p'', CHR ''{'', CHR ''I'', CHR ''s''}"
  shows "ublock_count (a @ r @ b) = ublock_count (r @ b)"
  using assms(1)
proof (induction a)
  case Nil
  show ?case by simp
next
  case (Cons x a)
  from Cons.prems have no: "take 5 ((x # a) @ t) \<noteq> [CHR 0x5C, CHR ''p'', CHR ''{'', CHR ''I'', CHR ''s'']"
    and rest: "pattern_ublock (a @ t) = Some (length a)"
    by (auto split: if_splits)
  have "take 5 ((x # a) @ r @ b) \<noteq> [CHR 0x5C, CHR ''p'', CHR ''{'', CHR ''I'', CHR ''s'']"
  proof
    assume "take 5 ((x # a) @ r @ b) = [CHR 0x5C, CHR ''p'', CHR ''{'', CHR ''I'', CHR ''s'']"
    from take5_split [OF this _ no] assms(2,3) show False by simp
  qed
  with Cons.IH [OF rest] show ?case by simp
qed

lemma ublock_count_free:
  assumes "r \<noteq> []" and "CHR ''p'' \<notin> set r" and "last r \<noteq> CHR 0x5C"
  shows "ublock_count (r @ b) = ublock_count b"
  using assms
proof (induction r rule: list_nonempty_induct)
  case (single x)
  then show ?case by (cases b) auto
next
  case (cons x r)
  then obtain y r' where r: "r = y # r'" by (cases r) auto
  with cons.prems have "y \<noteq> CHR ''p''" by auto
  with cons r show ?case by simp
qed

lemma c_strchr_Some: "c_strchr s c = Some k \<Longrightarrow> k < length s"
  by (induction s arbitrary: k) (auto split: if_splits)

lemma pattern_ublock_subst_count:
  assumes "pattern_ublock perl_regex = Some start"
    and "pattern_ublock_subst perl_regex start = Inr perl_regex'"
  shows "ublock_count perl_regex' < ublock_count perl_regex"
proof -
  from assms(2) obtain k name ur r where
    k: "c_strchr (drop start perl_regex) CHR ''}'' = Some k"
    and f: "find (\<lambda>(name, ur). prefix name (drop (start + 5) perl_regex)) ublock2urange
              = Some (name, ur)"
    and r: "r = take URANGE_LEN ur \<or> r = take (URANGE_LEN - 2) (drop 1 ur)"
    and new: "perl_regex' = take start perl_regex @ r @ drop (start + k + 1) perl_regex"
    by (auto simp: pattern_ublock_subst_def Let_def split: option.splits if_splits)
  from f have "(name, ur) \<in> set ublock2urange"
    by (auto simp: find_Some_iff in_set_conv_nth)
  with ublock2urange_free r have free: "ublock_free r"
    by (auto simp: list_all_iff)
  from pattern_ublock_Some [OF assms(1)]
  have lt: "start < length perl_regex"
    and cnt: "ublock_count perl_regex = Suc (ublock_count (drop (Suc start) perl_regex))"
    by simp_all
  have "pattern_ublock (take start perl_regex @ drop start perl_regex) = Some (length (take start perl_regex))"
    using assms(1) lt by simp
  from ublock_count_front [OF this, of r "drop (start + k + 1) perl_regex"] free
  have "ublock_count perl_regex' = ublock_count (r @ drop (start + k + 1) perl_regex)"
    by (simp add: new ublock_free_def)
  also have "\<dots> = ublock_count (drop (start + k + 1) perl_regex)"
    using free by (intro ublock_count_free) (simp_all add: ublock_free_def)
  also have "\<dots> \<le> ublock_count (drop (Suc start) perl_regex)"
  proof -
    have "drop (Suc start) perl_regex
            = take k (drop (Suc start) perl_regex) @ drop (start + k + 1) perl_regex"
      by (metis add.commute add_Suc_right Suc_eq_plus1 append_take_drop_id drop_drop)
    then show ?thesis by (metis ublock_count_append)
  qed
  finally show ?thesis using cnt by simp
qed

text \<open>The loop that substitutes the blocks: it runs while \<open>strstr\<close> finds one, and
  returns \<open>LY_EVALID\<close> for a block without \<open>}\<close> or with an unknown name.\<close>

function pattern_ublocks :: "string \<Rightarrow> LY_ERR + string" where
  "pattern_ublocks perl_regex =
     (case pattern_ublock perl_regex of
        None \<Rightarrow> Inr perl_regex
      | Some start \<Rightarrow>
          (case pattern_ublock_subst perl_regex start of
             Inl err \<Rightarrow> Inl err
           | Inr perl_regex' \<Rightarrow> pattern_ublocks perl_regex'))"
  by pat_completeness auto
termination
  by (relation "measure ublock_count") (auto simp: pattern_ublock_subst_count)

text \<open>
  \<open>lys_compile_type_pattern_check\<close> up to the call of \<open>pcre_compile\<close>: the return code of
  the substitution, or the expression \<open>perl_regex\<close> that is given to \<open>pcre_compile\<close>, a function
  of the PCRE library ("must return 0, already checked during parsing"); \<open>None\<close> when the
  comparison reads in front of the string. \<open>malloc\<close> and \<open>ly_realloc\<close> are taken to succeed
  (their failure returns \<open>LY_EMEM\<close>).
\<close>

definition lys_compile_type_pattern_check :: "string \<Rightarrow> nat \<Rightarrow> (LY_ERR + string) option" where
  "lys_compile_type_pattern_check mem off =
     (case lys_pattern_perl_regex mem off of
        None \<Rightarrow> None
      | Some perl_regex \<Rightarrow> Some (pattern_ublocks perl_regex))"

declare pattern_ublocks.simps [simp del]

text \<open>The spec's words: every literal \<open>$\<close> and \<open>^\<close> escapes to \<open>\\$\<close>, \<open>\\^\<close>.\<close>

definition xsd_escaped :: "string \<Rightarrow> string" where
  "xsd_escaped pattern =
     concat (map (\<lambda>c. if c = CHR ''$'' \<or> c = CHR ''^'' then [CHR 0x5C, c] else [c]) pattern)"

section \<open>The words of the spec\<close>


text \<open>The spec's words: a derived interval is "entirely contained" in an interval of the
  parent.\<close>

definition range_part_within :: "bool \<Rightarrow> lysc_range_part \<Rightarrow> lysc_range_part \<Rightarrow> bool" where
  "range_part_within uns p b \<longleftrightarrow>
     \<not> range_lt uns (min_64 p) (min_64 b) \<and> \<not> range_lt uns (max_64 b) (max_64 p)"

declare lys_compile_type_range_walk.simps [simp del]
declare lys_compile_type_range_parse.simps [simp del]

text \<open>The state the feature runtime keeps: an enabled feature has all its if-feature
  expressions true.\<close>

definition features_consistent :: "'p heap \<Rightarrow> bool" where
  "features_consistent h \<longleftrightarrow> (\<forall>p. is_enabled (h p) \<longrightarrow> iffeatures_true h (f_iffeatures (h p)))"

text \<open>The features flipped by the passes of enable-all: \<open>h\<close> is \<open>h0\<close> with the members of
  \<open>changed\<close>, which were disabled, enabled.\<close>

definition enabled_since :: "'p heap \<Rightarrow> 'p heap \<Rightarrow> 'p list \<Rightarrow> bool" where
  "enabled_since h0 h changed \<longleftrightarrow>
     (\<forall>p \<in> set changed. \<not> is_enabled (h0 p)) \<and>
     h = (\<lambda>q. if q \<in> set changed then set_enabled (h0 q) else h0 q)"

text \<open>A full pass of enable-all enables nothing new: the module has disabled features, and
  each of them has an if-feature expression of value 0.\<close>

definition enable_all_stuck :: "'p heap \<Rightarrow> 'p lysc_module \<Rightarrow> bool" where
  "enable_all_stuck h m \<longleftrightarrow>
     (\<exists>p \<in> set (mod_features m). \<not> is_enabled (h p)) \<and>
     (\<forall>p \<in> set (mod_features m).
        \<not> is_enabled (h p) \<longrightarrow> (\<exists>i \<in> set (f_iffeatures (h p)). lysc_iffeature_value h (Some i) = 0))"

text \<open>The back-links are complete: a feature is in the \<open>depfeatures\<close> of every feature that one
  of its if-feature expressions refers to (\<open>lys_compile_feature\<close> adds it there).\<close>

definition deps_complete :: "'p heap \<Rightarrow> bool" where
  "deps_complete h \<longleftrightarrow>
     (\<forall>q. \<forall>i \<in> set (f_iffeatures (h q)). \<forall>r \<in> set (iff_features i). q \<in> set (f_depfeatures (h r)))"

text \<open>Two stores with the same names and links: they differ in the flags only.\<close>

definition same_links :: "'p heap \<Rightarrow> 'p heap \<Rightarrow> bool" where
  "same_links h h' \<longleftrightarrow>
     (\<forall>p. f_name (h' p) = f_name (h p) \<and> f_iffeatures (h' p) = f_iffeatures (h p) \<and>
          f_depfeatures (h' p) = f_depfeatures (h p))"

text \<open>An enabled feature with an if-feature expression of value 0.\<close>

definition unsettled :: "'p heap \<Rightarrow> 'p \<Rightarrow> bool" where
  "unsettled h q \<longleftrightarrow> is_enabled (h q) \<and> \<not> iffeatures_true h (f_iffeatures (h q))"

text \<open>Every unsettled feature is a dependent feature of a member of \<open>changed\<close> from index
  \<open>u\<close> on.\<close>

definition pending :: "'p heap \<Rightarrow> 'p list \<Rightarrow> nat \<Rightarrow> bool" where
  "pending h changed u \<longleftrightarrow>
     (\<forall>q. unsettled h q \<longrightarrow>
        (\<exists>k. u \<le> k \<and> k < length changed \<and> q \<in> set (f_depfeatures (h (changed ! k)))))"

section \<open>A module with four features\<close>

text \<open>
  The features \<open>a\<close>, \<open>b\<close>, \<open>c\<close> and \<open>f\<close> of the spec's scenario, \<open>f\<close> with
  \<open>if-feature "(a and not b) or c"\<close>. \<open>lys_compile_iffeature\<close> writes the opcodes from the
  right: \<open>OR AND F NOT F F\<close> at the positions 0 to 5, that is the bytes \<open>0x36\<close> and \<open>0x0F\<close>,
  with the pointers to \<open>a\<close>, \<open>b\<close> and \<open>c\<close>; \<open>lys_compile_feature\<close> adds \<open>f\<close> to the
  \<open>depfeatures\<close> of the three. \<open>ex_heap a b c f\<close> is the store with the given enabled bits.
\<close>

datatype fid = FA | FB | FC | FF

instantiation fid :: finite
begin
instance
proof
  have "(UNIV :: fid set) = {FA, FB, FC, FF}"
    using fid.exhaust by auto
  then show "finite (UNIV :: fid set)"
    by (metis finite.emptyI finite.insertI)
qed
end

definition ex_iff :: "fid lysc_iffeature" where
  "ex_iff = \<lparr>iff_expr = [0x36, 0x0F], iff_features = [FA, FB, FC]\<rparr>"

definition ex_flags :: "bool \<Rightarrow> 16 word" where
  "ex_flags on = (if on then LYS_FENABLED else 0)"

definition ex_heap :: "bool \<Rightarrow> bool \<Rightarrow> bool \<Rightarrow> bool \<Rightarrow> fid heap" where
  "ex_heap a b c f p =
     (case p of
        FA \<Rightarrow> \<lparr>f_name = ''a'', f_flags = ex_flags a, f_iffeatures = [], f_depfeatures = [FF]\<rparr>
      | FB \<Rightarrow> \<lparr>f_name = ''b'', f_flags = ex_flags b, f_iffeatures = [], f_depfeatures = [FF]\<rparr>
      | FC \<Rightarrow> \<lparr>f_name = ''c'', f_flags = ex_flags c, f_iffeatures = [], f_depfeatures = [FF]\<rparr>
      | FF \<Rightarrow> \<lparr>f_name = ''f'', f_flags = ex_flags f, f_iffeatures = [ex_iff], f_depfeatures = []\<rparr>)"

definition ex_module :: "fid lysc_module" where
  "ex_module = \<lparr>mod_name = ''m'', mod_features = [FA, FB, FC, FF]\<rparr>"






section \<open>The feature runtime\<close>

lemma iffeatures_true_iff:
  "iffeatures_true h ifes \<longleftrightarrow> (\<forall>i \<in> set ifes. lysc_iffeature_value h (Some i) \<noteq> 0)"
  by (induction ifes) auto

lemma lys_feature_change_pass_single_None:
  "find (\<lambda>q. f_name (h q) = name) ps = None \<Longrightarrow>
   lys_feature_change_pass False name v ps h changed dc = Next h changed dc"
  by (induction ps) (auto split: if_splits)

lemma lys_feature_change_pass_single_Some:
  "find (\<lambda>q. f_name (h q) = name) ps = Some p \<Longrightarrow>
   lys_feature_change_pass False name v ps h changed dc =
     (if (v \<noteq> 0 \<and> is_enabled (h p)) \<or> (v = 0 \<and> \<not> is_enabled (h p)) then Done LY_SUCCESS h
      else if v \<noteq> 0 \<and> \<not> iffeatures_true h (f_iffeatures (h p)) then Done LY_EDENIED h
      else Next (h(p := (if v \<noteq> 0 then set_enabled (h p) else clear_enabled (h p))))
             (changed @ [p]) dc)"
  by (induction ps) (auto split: if_splits simp: Let_def)

lemma lys_feature_change_single:
  assumes "name \<noteq> ''*''"
  shows "lys_feature_change h m name v =
     (case find (\<lambda>q. f_name (h q) = name) (mod_features m) of
        None \<Rightarrow> (LY_EINVAL, h)
      | Some p \<Rightarrow>
          if (v \<noteq> 0 \<and> is_enabled (h p)) \<or> (v = 0 \<and> \<not> is_enabled (h p)) then (LY_SUCCESS, h)
          else if v \<noteq> 0 \<and> \<not> iffeatures_true h (f_iffeatures (h p)) then (LY_EDENIED, h)
          else (LY_SUCCESS,
                lys_feature_propagate
                  (h(p := (if v \<noteq> 0 then set_enabled (h p) else clear_enabled (h p)))) [p] 0))"
proof (cases "find (\<lambda>q. f_name (h q) = name) (mod_features m)")
  case None
  then show ?thesis
    using assms lys_feature_change_pass_single_None [OF None, of v "[]" 0]
    by (cases "mod_features m")
       (simp_all add: lys_feature_change_def lys_feature_change_run.simps)
next
  case (Some p)
  then have "mod_features m \<noteq> []" by auto
  then show ?thesis
    using assms Some lys_feature_change_pass_single_Some [OF Some, of v "[]" 0]
    by (simp add: lys_feature_change_def lys_feature_change_run.simps)
qed

lemma iff_getop_ex:
  "iff_getop [0x36, 0x0F] 0 = LYS_IFF_OR"
  "iff_getop [0x36, 0x0F] 1 = LYS_IFF_AND"
  "iff_getop [0x36, 0x0F] 2 = LYS_IFF_F"
  "iff_getop [0x36, 0x0F] 3 = LYS_IFF_NOT"
  "iff_getop [0x36, 0x0F] 4 = LYS_IFF_F"
  "iff_getop [0x36, 0x0F] 5 = LYS_IFF_F"
  by (simp_all add: iff_getop_def LYS_IFF_OR_def LYS_IFF_AND_def LYS_IFF_F_def LYS_IFF_NOT_def)

lemma is_enabled_ex_flags: "is_enabled (f\<lparr>f_flags := ex_flags on\<rparr>) = on"
  by (simp add: is_enabled_def ex_flags_def LYS_FENABLED_def)

lemma is_enabled_ex_heap:
  "is_enabled (ex_heap a b c f FA) = a"
  "is_enabled (ex_heap a b c f FB) = b"
  "is_enabled (ex_heap a b c f FC) = c"
  "is_enabled (ex_heap a b c f FF) = f"
  by (simp_all add: is_enabled_def ex_heap_def ex_flags_def LYS_FENABLED_def)

lemma ex_fuel: "4 * length (iff_expr ex_iff) = Suc (Suc (Suc (Suc (Suc (Suc (Suc (Suc 0)))))))"
  by (simp add: ex_iff_def)

lemma iff_getop_ex':
  "iff_getop (iff_expr ex_iff) 0 = 2"
  "iff_getop (iff_expr ex_iff) (Suc 0) = 1"
  "iff_getop (iff_expr ex_iff) (Suc (Suc 0)) = 3"
  "iff_getop (iff_expr ex_iff) (Suc (Suc (Suc 0))) = 0"
  "iff_getop (iff_expr ex_iff) (Suc (Suc (Suc (Suc 0)))) = 3"
  "iff_getop (iff_expr ex_iff) (Suc (Suc (Suc (Suc (Suc 0))))) = 3"
  using iff_getop_ex 
  by (simp_all add: ex_iff_def eval_nat_numeral LYS_IFF_OR_def LYS_IFF_AND_def LYS_IFF_F_def LYS_IFF_NOT_def)

lemma ex_features:
  "iff_features ex_iff ! 0 = FA" "iff_features ex_iff ! Suc 0 = FB" "iff_features ex_iff ! Suc (Suc 0) = FC"
  "length (iff_features ex_iff) = Suc (Suc (Suc 0))" "iff_expr ex_iff \<noteq> []"
  by (simp_all add: ex_iff_def)

lemma ex_iff_value:
  "lysc_iffeature_value (ex_heap a b c f) (Some ex_iff) = (if (a \<and> \<not> b) \<or> c then 1 else 0)"
  by (simp add: lysc_iffeature_value_def ex_fuel iff_getop_ex' ex_features lysc_feature_value_def is_enabled_ex_heap
      LYS_IFF_OR_def LYS_IFF_AND_def LYS_IFF_F_def LYS_IFF_NOT_def)

lemma ex_find:
  "find (\<lambda>q. f_name (ex_heap a b c f q) = ''a'') (mod_features ex_module) = Some FA"
  "find (\<lambda>q. f_name (ex_heap a b c f q) = ''b'') (mod_features ex_module) = Some FB"
  "find (\<lambda>q. f_name (ex_heap a b c f q) = ''c'') (mod_features ex_module) = Some FC"
  "find (\<lambda>q. f_name (ex_heap a b c f q) = ''f'') (mod_features ex_module) = Some FF"
  by (simp_all add: ex_module_def ex_heap_def)

lemma ex_iffeatures:
  "f_iffeatures (ex_heap a b c f FA) = []"
  "f_iffeatures (ex_heap a b c f FB) = []"
  "f_iffeatures (ex_heap a b c f FC) = []"
  "f_iffeatures (ex_heap a b c f FF) = [ex_iff]"
  by (simp_all add: ex_heap_def)

text \<open>
  Claim C10. For a module without features \<open>lys_feature_change\<close> returns \<open>LY_EINVAL\<close>
  for every name, the wildcard \<open>*\<close> included, and so do \<open>lys_feature_enable\<close> and
  \<open>lys_feature_disable\<close>; the store is not touched.
\<close>

theorem lys_feature_change_no_features:
  assumes "mod_features m = []"
  shows "lys_feature_change h m name value = (LY_EINVAL, h) \<and>
         (compiled lm = Some m \<longrightarrow>
            lys_feature_enable h (Some lm) feature = (LY_EINVAL, h) \<and>
            lys_feature_disable h (Some lm) feature = (LY_EINVAL, h))"
  using assms
  by (simp add: lys_feature_change_def lys_feature_enable_def lys_feature_disable_def
      split: option.split)

theorem lys_feature_change_no_features_witness:
  "lys_feature_change (ex_heap True False False False) \<lparr>mod_name = ''empty'', mod_features = []\<rparr> ''*'' 1
     = (LY_EINVAL, ex_heap True False False False) \<and>
   lys_feature_enable (ex_heap True False False False)
     (Some \<lparr>compiled = Some \<lparr>mod_name = ''empty'', mod_features = []\<rparr>\<rparr>) (Some ''*'')
     = (LY_EINVAL, ex_heap True False False False) \<and>
   lys_feature_disable (ex_heap True False False False)
     (Some \<lparr>compiled = Some \<lparr>mod_name = ''empty'', mod_features = []\<rparr>\<rparr>) (Some ''a'')
     = (LY_EINVAL, ex_heap True False False False)"
  using lys_feature_change_no_features
    [of "\<lparr>mod_name = ''empty'', mod_features = []\<rparr>" "ex_heap True False False False" "''*''" 1
        "\<lparr>compiled = Some \<lparr>mod_name = ''empty'', mod_features = []\<rparr>\<rparr>" "Some ''*''"]
    lys_feature_change_no_features
    [of "\<lparr>mod_name = ''empty'', mod_features = []\<rparr>" "ex_heap True False False False" "''*''" 1
        "\<lparr>compiled = Some \<lparr>mod_name = ''empty'', mod_features = []\<rparr>\<rparr>" "Some ''a''"]
  by simp

text \<open>
  Claim C8. Enabling a named feature that is already enabled returns \<open>LY_SUCCESS\<close> and
  leaves the store as it was (no bit changes, nothing is propagated); so does disabling a
  feature that is already disabled. The named feature is the first of the module with
  that name.
\<close>

theorem lys_feature_enable_idempotent:
  assumes "name \<noteq> ''*''"
    and "compiled lm = Some m"
    and "find (\<lambda>q. f_name (h q) = name) (mod_features m) = Some p"
  shows "(is_enabled (h p) \<longrightarrow> lys_feature_enable h (Some lm) (Some name) = (LY_SUCCESS, h)) \<and>
         (\<not> is_enabled (h p) \<longrightarrow> lys_feature_disable h (Some lm) (Some name) = (LY_SUCCESS, h))"
  using assms
  by (simp add: lys_feature_enable_def lys_feature_disable_def lys_feature_change_single)

theorem lys_feature_enable_idempotent_witness:
  "lys_feature_enable (ex_heap True False False True) (Some \<lparr>compiled = Some ex_module\<rparr>) (Some ''f'')
     = (LY_SUCCESS, ex_heap True False False True) \<and>
   lys_feature_disable (ex_heap True False False True) (Some \<lparr>compiled = Some ex_module\<rparr>) (Some ''b'')
     = (LY_SUCCESS, ex_heap True False False True)"
  using lys_feature_enable_idempotent
    [of "''f''" "\<lparr>compiled = Some ex_module\<rparr>" ex_module "ex_heap True False False True" FF]
    lys_feature_enable_idempotent
    [of "''b''" "\<lparr>compiled = Some ex_module\<rparr>" ex_module "ex_heap True False False True" FB]
  by (simp add: ex_find is_enabled_ex_heap)

text \<open>
  Claim C7. Enabling a single named feature that is disabled and has an if-feature
  expression of value 0 fails with \<open>LY_EDENIED\<close>, and the store, hence the feature's
  enabled bit, is unchanged.
\<close>

theorem lys_feature_enable_denied:
  assumes "name \<noteq> ''*''"
    and "find (\<lambda>q. f_name (h q) = name) (mod_features m) = Some p"
    and "\<not> is_enabled (h p)"
    and "i \<in> set (f_iffeatures (h p))"
    and "lysc_iffeature_value h (Some i) = 0"
  shows "(value \<noteq> 0 \<longrightarrow> lys_feature_change h m name value = (LY_EDENIED, h)) \<and>
         (compiled lm = Some m \<longrightarrow> lys_feature_enable h (Some lm) (Some name) = (LY_EDENIED, h))"
proof -
  have "\<not> iffeatures_true h (f_iffeatures (h p))"
    using assms(4,5) by (auto simp: iffeatures_true_iff)
  then show ?thesis
    using assms(1,2,3) by (simp add: lys_feature_enable_def lys_feature_change_single)
qed

theorem lys_feature_enable_denied_witness:
  "lys_feature_change (ex_heap False True False False) ex_module ''f'' 1
     = (LY_EDENIED, ex_heap False True False False) \<and>
   lys_feature_enable (ex_heap False True False False) (Some \<lparr>compiled = Some ex_module\<rparr>) (Some ''f'')
     = (LY_EDENIED, ex_heap False True False False) \<and>
   \<not> is_enabled (ex_heap False True False False FF)"
  using lys_feature_enable_denied
    [of "''f''" "ex_heap False True False False" ex_module FF ex_iff 1 "\<lparr>compiled = Some ex_module\<rparr>"]
  by (simp add: ex_find is_enabled_ex_heap ex_iffeatures ex_iff_value)

lemma lys_feature_value_search_range:
  "lys_feature_value_search h name ps \<in> {- 1, 0, 1}"
  by (induction ps) auto

lemma lys_feature_value_search_none:
  "lys_feature_value_search h name ps = - 1 \<longleftrightarrow> (\<forall>p \<in> set ps. f_name (h p) \<noteq> name)"
  by (induction ps) auto

text \<open>
  \<open>lys_feature_value\<close> on a module with features: the result is \<open>-1\<close> when the module, its
  compiled form or the name is \<open>NULL\<close>, and for a name, exactly when no feature of the module
  has it; it is an \<open>int\<close> among \<open>-1\<close>, 0 and 1, not a return code.
\<close>

lemma lys_feature_value_not_found:
  "lys_feature_value h None feature = Some (- 1) \<and>
   (compiled lm = None \<longrightarrow> lys_feature_value h (Some lm) feature = Some (- 1)) \<and>
   lys_feature_value h (Some lm) None = Some (- 1) \<and>
   (compiled lm = Some m \<and> mod_features m \<noteq> [] \<longrightarrow>
      (lys_feature_value h (Some lm) (Some name) = Some (- 1)
         \<longleftrightarrow> (\<forall>p \<in> set (mod_features m). f_name (h p) \<noteq> name)) \<and>
      lys_feature_value h (Some lm) (Some name) \<in> {Some (- 1), Some 0, Some 1})"
  using lys_feature_value_search_range [of h name "mod_features m"]
  by (auto simp: lys_feature_value_def lys_feature_value_search_none split: option.split)

text \<open>
  Claim C9 at a module without features, asked for the feature \<open>a\<close>: no feature of the
  module has the name, and \<open>lys_feature_value\<close> does not return \<open>-1\<close>: the loop reads
  \<open>LY_ARRAY_SIZE(mod->features)\<close> in front of the \<open>NULL\<close> array. \<open>lys_feature_enable\<close> on the
  same module tests \<open>!mod->features\<close> first and returns \<open>LY_EINVAL\<close>.
\<close>

theorem lys_feature_value_no_features:
  "lys_feature_value (ex_heap True True True True)
     (Some \<lparr>compiled = Some \<lparr>mod_name = ''empty'', mod_features = []\<rparr>\<rparr>) (Some ''a'') = None \<and>
   lys_feature_enable (ex_heap True True True True)
     (Some \<lparr>compiled = Some \<lparr>mod_name = ''empty'', mod_features = []\<rparr>\<rparr>) (Some ''a'')
     = (LY_EINVAL, ex_heap True True True True)"
  by (simp add: lys_feature_value_def lys_feature_enable_def lys_feature_change_def)

lemma lys_feature_value_search_find:
  "find (\<lambda>q. f_name (h q) = name) ps = Some p \<Longrightarrow>
   lys_feature_value_search h name ps = (if is_enabled (h p) then 1 else 0)"
  by (induction ps) (auto split: if_splits)

lemma ex_consistent: "features_consistent (ex_heap True False False True)"
  unfolding features_consistent_def
proof (intro allI impI)
  fix p
  show "iffeatures_true (ex_heap True False False True) (f_iffeatures (ex_heap True False False True p))"
    by (cases p) (simp_all add: ex_iffeatures ex_iff_value)
qed

subsection \<open>Enable-all\<close>

lemma lys_feature_restore_eq:
  "lys_feature_restore h ps = (\<lambda>q. if q \<in> set ps then clear_enabled (h q) else h q)"
proof (induction ps arbitrary: h)
  case Nil
  then show ?case by simp
next
  case (Cons p ps)
  have idem: "clear_enabled (clear_enabled f) = clear_enabled f" for f :: "'a lysc_feature"
    by (simp add: clear_enabled_id)
  show ?case
    by (rule ext) (simp add: Cons.IH idem)
qed

lemma enabled_since_restore:
  assumes "enabled_since h0 h changed"
  shows "lys_feature_restore h changed = h0"
  using assms
  by (auto simp: enabled_since_def lys_feature_restore_eq clear_set_enabled)

lemma lys_feature_change_pass_all:
  assumes "lys_feature_change_pass True name value ps h changed dc = r"
    and "value \<noteq> 0"
    and "enabled_since h0 h changed"
    and "set changed \<subseteq> M" and "set ps \<subseteq> M"
  shows "\<exists>h' changed' dc'. r = Next h' changed' dc' \<and> enabled_since h0 h' changed' \<and>
           set changed' \<subseteq> M \<and> length changed \<le> length changed'"
  using assms(1,3,4,5)
proof (induction ps arbitrary: h changed dc)
  case Nil
  then show ?case by auto
next
  case (Cons p ps)
  show ?case
  proof (cases "is_enabled (h p) \<or> \<not> iffeatures_true h (f_iffeatures (h p))")
    case True
    then obtain dc1 where "lys_feature_change_pass True name value ps h changed dc1 = r"
      using Cons.prems(1) assms(2) by (auto split: if_splits)
    from Cons.IH [OF this Cons.prems(2,3)] Cons.prems(4) show ?thesis by auto
  next
    case False
    let ?h = "h(p := set_enabled (h p))"
    from False Cons.prems(1) assms(2)
    have r: "lys_feature_change_pass True name value ps ?h (changed @ [p]) dc = r"
      by (simp add: Let_def)
    have notin: "p \<notin> set changed"
      using False Cons.prems(2) by (auto simp: enabled_since_def)
    then have hp: "h p = h0 p"
      using Cons.prems(2) by (auto simp: enabled_since_def)
    have "enabled_since h0 ?h (changed @ [p])"
      using Cons.prems(2) False hp notin
      by (auto simp: enabled_since_def fun_eq_iff)
    from Cons.IH [OF r this] Cons.prems(3,4) show ?thesis by auto
  qed
qed

lemma lys_feature_change_pass_grow:
  assumes "lys_feature_change_pass all name value ps h changed dc = Next h' changed' dc'"
  shows "length changed \<le> length changed'"
  using assms
proof (induction ps arbitrary: h changed dc)
  case Nil
  then show ?case by simp
next
  case (Cons p ps)
  from Cons.prems consider
      (keep) dc1 where "lys_feature_change_pass all name value ps h changed dc1 = Next h' changed' dc'"
    | (flip) g where "lys_feature_change_pass all name value ps g (changed @ [p]) dc = Next h' changed' dc'"
    | (stop) "changed' = changed @ [p]"
    by (auto simp: Let_def split: if_splits)
  then show ?case
  proof cases
    case keep
    from Cons.IH [OF this] show ?thesis .
  next
    case flip
    from Cons.IH [OF this] show ?thesis by simp
  next
    case stop
    then show ?thesis by simp
  qed
qed

lemma lys_feature_change_pass_all_stuck:
  assumes "lys_feature_change_pass True name value ps h changed dc = Next h' changed' dc'"
    and "value \<noteq> 0"
    and "length changed' \<le> length changed"
  shows "h' = h \<and> changed' = changed \<and>
         (\<forall>p \<in> set ps. \<not> is_enabled (h p) \<longrightarrow> \<not> iffeatures_true h (f_iffeatures (h p))) \<and>
         (dc' \<noteq> dc \<longrightarrow> (\<exists>p \<in> set ps. \<not> is_enabled (h p)))"
  using assms(1,3)
proof (induction ps arbitrary: h changed dc)
  case Nil
  then show ?case by simp
next
  case (Cons p ps)
  show ?case
  proof (cases "is_enabled (h p)")
    case True
    with Cons.prems assms(2)
    have "lys_feature_change_pass True name value ps h changed dc = Next h' changed' dc'"
      by (auto split: if_splits)
    from Cons.IH [OF this Cons.prems(2)] True show ?thesis by auto
  next
    case dis: False
    show ?thesis
    proof (cases "iffeatures_true h (f_iffeatures (h p))")
      case True
      with dis Cons.prems(1) assms(2)
      have "lys_feature_change_pass True name value ps (h(p := set_enabled (h p))) (changed @ [p]) dc
              = Next h' changed' dc'"
        by (simp add: Let_def)
      from lys_feature_change_pass_grow [OF this] Cons.prems(2) show ?thesis by simp
    next
      case False
      with dis Cons.prems(1) assms(2)
      have "lys_feature_change_pass True name value ps h changed (dc + 1) = Next h' changed' dc'"
        by simp
      from Cons.IH [OF this Cons.prems(2)] dis False show ?thesis by auto
    qed
  qed
qed

lemma lys_feature_change_run_all:
  fixes h0 :: "'p::finite heap"
  assumes "lys_feature_change_run all name value m h changed changed_count = (err, h')"
    and "all" and "value \<noteq> 0"
    and "enabled_since h0 h changed"
    and "set changed \<subseteq> set (mod_features m)"
    and "changed_count = length changed"
  shows "err = LY_SUCCESS \<or>
         (err = LY_EDENIED \<and> h' = h0 \<and>
          (\<exists>h1 flipped. enabled_since h0 h1 flipped \<and> set flipped \<subseteq> set (mod_features m) \<and>
             enable_all_stuck h1 m))"
  using assms
proof (induction all name "value" m h changed changed_count
    rule: lys_feature_change_run.induct)
  case (1 all name "value" m h changed changed_count)
  from lys_feature_change_pass_all [OF refl "1.prems"(3,4,5) subset_refl, of name 0] "1.prems"(2)
  obtain h1 changed1 dc where
    pass: "lys_feature_change_pass all name value (mod_features m) h changed 0 = Next h1 changed1 dc"
    and since: "enabled_since h0 h1 changed1"
    and sub: "set changed1 \<subseteq> set (mod_features m)"
    and le: "length changed \<le> length changed1"
    by auto
  note run = "1.prems"(1) [unfolded lys_feature_change_run.simps
      [of all name "value" m h changed changed_count]]
  show ?case
  proof (cases "dc = 0")
    case True
    with run pass "1.prems"(2) show ?thesis by simp
  next
    case dc: False
    show ?thesis
    proof (cases "changed_count = length changed1")
      case True
      with run pass "1.prems"(2,3) dc
      have res: "err = LY_EDENIED" "h' = lys_feature_restore h1 changed1"
        by auto
      from True "1.prems"(6) have "length changed1 \<le> length changed" by simp
      from lys_feature_change_pass_all_stuck [OF pass [unfolded \<open>all\<close> [THEN eqTrueI]] "1.prems"(3) this] dc
      have eq: "h1 = h" "changed1 = changed"
        and stuck: "\<forall>p \<in> set (mod_features m).
            \<not> is_enabled (h p) \<longrightarrow> \<not> iffeatures_true h (f_iffeatures (h p))"
          "\<exists>p \<in> set (mod_features m). \<not> is_enabled (h p)"
        by auto
      have "enable_all_stuck h m"
        using stuck by (auto simp: enable_all_stuck_def iffeatures_true_iff)
      moreover have "h' = h0"
        using res(2) enabled_since_restore [OF since] by simp
      ultimately show ?thesis
        using res(1) "1.prems"(4,5) by auto
    next
      case False
      with run pass "1.prems"(2,3) dc
      have rec: "lys_feature_change_run all name value m h1 changed1 (length changed1) = (err, h')"
        by auto
      have notnil: "\<not> (\<not> all \<and> changed1 = [])"
        using "1.prems"(2) by simp
      from "1.IH" [OF pass notnil _ False rec "1.prems"(2,3) since sub refl] "1.prems"(2,3) dc
      show ?thesis by simp
    qed
  qed
qed




subsection \<open>Propagation to the dependent features\<close>

lemma links_set_enabled [simp]:
  "f_name (set_enabled f) = f_name f" "f_iffeatures (set_enabled f) = f_iffeatures f"
  "f_depfeatures (set_enabled f) = f_depfeatures f"
  by (simp_all add: set_enabled_def)

lemma links_clear_enabled [simp]:
  "f_name (clear_enabled f) = f_name f" "f_iffeatures (clear_enabled f) = f_iffeatures f"
  "f_depfeatures (clear_enabled f) = f_depfeatures f"
  by (simp_all add: clear_enabled_def)

lemma lysc_iffeature_value_r_local:
  assumes "\<forall>r \<in> set (iff_features i). is_enabled (h r) = is_enabled (h' r)"
  shows "lysc_iffeature_value_r n h i e f = lysc_iffeature_value_r n h' i e f"
proof (induction n arbitrary: e f)
  case 0
  show ?case by simp
next
  case (Suc n)
  have "lysc_feature_value (Some (h (iff_features i ! f))) = lysc_feature_value (Some (h' (iff_features i ! f)))"
    if "f < length (iff_features i)"
    using assms that by (simp add: lysc_feature_value_def)
  then show ?case
    by (simp add: Suc.IH Let_def)
qed

lemma lysc_iffeature_value_local:
  assumes "\<forall>r \<in> set (iff_features i). is_enabled (h r) = is_enabled (h' r)"
  shows "lysc_iffeature_value h (Some i) = lysc_iffeature_value h' (Some i)"
  by (simp add: lysc_iffeature_value_def lysc_iffeature_value_r_local [OF assms])

lemma features_consistent_unsettled: "features_consistent h \<longleftrightarrow> (\<forall>q. \<not> unsettled h q)"
  by (auto simp: features_consistent_def unsettled_def)

lemma unsettled_flip:
  assumes dc: "deps_complete h"
    and h': "h' = h(p := f')"
    and links: "f_iffeatures f' = f_iffeatures (h p)"
    and new: "unsettled h' q" and old: "\<not> unsettled h q"
    and ok: "q = p \<Longrightarrow> iffeatures_true h (f_iffeatures (h p))"
  shows "q \<in> set (f_depfeatures (h p))"
proof -
  have ifs: "f_iffeatures (h' q) = f_iffeatures (h q)"
    using h' links by simp
  have was: "iffeatures_true h (f_iffeatures (h q))"
  proof (cases "q = p")
    case True
    with ok show ?thesis by simp
  next
    case False
    with h' new have "is_enabled (h q)" by (simp add: unsettled_def)
    with old show ?thesis by (simp add: unsettled_def)
  qed
  from new ifs have "\<not> iffeatures_true h' (f_iffeatures (h q))"
    by (simp add: unsettled_def)
  with was obtain i where i: "i \<in> set (f_iffeatures (h q))"
    and v: "lysc_iffeature_value h (Some i) \<noteq> lysc_iffeature_value h' (Some i)"
    by (auto simp: iffeatures_true_iff)
  from v lysc_iffeature_value_local [of i h h']
  obtain r where r: "r \<in> set (iff_features i)" and "is_enabled (h r) \<noteq> is_enabled (h' r)"
    by auto
  with h' have "r = p" by (auto split: if_splits)
  with dc i r show ?thesis by (auto simp: deps_complete_def)
qed

lemma deps_complete_upd:
  assumes "deps_complete h" and "f_iffeatures f' = f_iffeatures (h p)"
    and "f_depfeatures f' = f_depfeatures (h p)"
  shows "deps_complete (h(p := f'))"
  using assms unfolding deps_complete_def by auto

lemma lys_feature_deps_pending:
  assumes "lys_feature_deps dfs h changed = (h', changed')"
    and "deps_complete h" and "u < length changed"
    and "\<forall>q. unsettled h q \<longrightarrow>
           q \<in> set dfs \<or>
           (\<exists>k. u < k \<and> k < length changed \<and> q \<in> set (f_depfeatures (h (changed ! k))))"
  shows "deps_complete h' \<and> pending h' changed' (Suc u)"
  using assms
proof (induction dfs arbitrary: h changed)
  case Nil
  then have eq: "h' = h" "changed' = changed" by simp_all
  have "pending h changed (Suc u)"
    unfolding pending_def Suc_le_eq using Nil.prems(4) by simp
  with Nil.prems(2) eq show ?case by simp
next
  case (Cons df dfs)
  show ?case
  proof (cases "is_enabled (h df) \<and> \<not> iffeatures_true h (f_iffeatures (h df))")
    case False
    then have df: "\<not> unsettled h df" by (simp add: unsettled_def)
    from False Cons.prems(1) have rec: "lys_feature_deps dfs h changed = (h', changed')"
      by (auto split: if_splits)
    have "\<forall>q. unsettled h q \<longrightarrow>
           q \<in> set dfs \<or>
           (\<exists>k. u < k \<and> k < length changed \<and> q \<in> set (f_depfeatures (h (changed ! k))))"
    proof (intro allI impI)
      fix q
      assume un: "unsettled h q"
      with df have "q \<noteq> df" by blast
      moreover from Cons.prems(4) un
      have "q \<in> set (df # dfs) \<or>
           (\<exists>k. u < k \<and> k < length changed \<and> q \<in> set (f_depfeatures (h (changed ! k))))"
        by blast
      ultimately show "q \<in> set dfs \<or>
           (\<exists>k. u < k \<and> k < length changed \<and> q \<in> set (f_depfeatures (h (changed ! k))))"
        by simp
    qed
    from Cons.IH [OF rec Cons.prems(2,3) this] show ?thesis .
  next
    case True
    let ?h = "h(df := clear_enabled (h df))"
    from True Cons.prems(1)
    have rec: "lys_feature_deps dfs ?h (changed @ [df]) = (h', changed')"
      by simp
    have dc: "deps_complete ?h"
      by (rule deps_complete_upd [OF Cons.prems(2)]) simp_all
    have deps: "f_depfeatures (?h x) = f_depfeatures (h x)" for x
      by simp
    have "q \<in> set dfs \<or>
          (\<exists>k. u < k \<and> k < length (changed @ [df]) \<and>
             q \<in> set (f_depfeatures (?h ((changed @ [df]) ! k))))"
      if un: "unsettled ?h q" for q
    proof (cases "unsettled h q")
      case True
      from un have "q \<noteq> df" by (auto simp: unsettled_def)
      moreover from Cons.prems(4) True
      have "q \<in> set (df # dfs) \<or>
           (\<exists>k. u < k \<and> k < length changed \<and> q \<in> set (f_depfeatures (h (changed ! k))))"
        by blast
      ultimately consider "q \<in> set dfs"
        | k where "u < k" "k < length changed" "q \<in> set (f_depfeatures (h (changed ! k)))"
        by auto
      then show ?thesis
      proof cases
        case 1
        then show ?thesis by simp
      next
        case 2
        from 2(2) have nth: "(changed @ [df]) ! k = changed ! k"
          by (simp add: nth_append)
        have "q \<in> set (f_depfeatures (?h ((changed @ [df]) ! k)))"
          unfolding nth deps by (rule 2(3))
        moreover from 2(2) have "k < length (changed @ [df])" by simp
        ultimately show ?thesis using 2(1) by blast
      qed
    next
      case False
      have "q \<in> set (f_depfeatures (h df))"
      proof (rule unsettled_flip [OF Cons.prems(2) refl _ un False])
        show "f_iffeatures (clear_enabled (h df)) = f_iffeatures (h df)" by simp
      next
        assume "q = df"
        with un show "iffeatures_true h (f_iffeatures (h df))" by (simp add: unsettled_def)
      qed
      then have "q \<in> set (f_depfeatures (?h ((changed @ [df]) ! length changed)))"
        unfolding deps by simp
      moreover have "length changed < length (changed @ [df])" by simp
      ultimately show ?thesis using Cons.prems(3) by blast
    qed
    then have all: "\<forall>q. unsettled ?h q \<longrightarrow>
           q \<in> set dfs \<or>
           (\<exists>k. u < k \<and> k < length (changed @ [df]) \<and>
              q \<in> set (f_depfeatures (?h ((changed @ [df]) ! k))))"
      by blast
    have "u < length (changed @ [df])"
      using Cons.prems(3) by simp
    from Cons.IH [OF rec dc this all] show ?thesis .
  qed
qed

lemma lys_feature_propagate_consistent:
  fixes h :: "'p::finite heap"
  assumes "deps_complete h" and "pending h changed u"
  shows "features_consistent (lys_feature_propagate h changed u)"
  using assms
proof (induction h changed u rule: lys_feature_propagate.induct)
  case (1 h changed u)
  show ?case
  proof (cases "u < length changed")
    case False
    with "1.prems"(2) have "\<forall>q. \<not> unsettled h q"
      by (auto simp: pending_def)
    with False show ?thesis
      by (simp add: lys_feature_propagate.simps [of h changed u] features_consistent_unsettled)
  next
    case True
    obtain h' changed' where
      d: "lys_feature_deps (f_depfeatures (h (changed ! u))) h changed = (h', changed')"
      by (cases "lys_feature_deps (f_depfeatures (h (changed ! u))) h changed") auto
    have "\<forall>q. unsettled h q \<longrightarrow>
           q \<in> set (f_depfeatures (h (changed ! u))) \<or>
           (\<exists>k. u < k \<and> k < length changed \<and> q \<in> set (f_depfeatures (h (changed ! k))))"
    proof (intro allI impI)
      fix q
      assume "unsettled h q"
      with "1.prems"(2) obtain k where k: "u \<le> k" "k < length changed"
        "q \<in> set (f_depfeatures (h (changed ! k)))"
        by (auto simp: pending_def)
      show "q \<in> set (f_depfeatures (h (changed ! u))) \<or>
           (\<exists>k. u < k \<and> k < length changed \<and> q \<in> set (f_depfeatures (h (changed ! k))))"
      proof (cases "k = u")
        case True
        with k show ?thesis by simp
      next
        case False
        with k have "u < k" by simp
        with k show ?thesis by blast
      qed
    qed
    from lys_feature_deps_pending [OF d "1.prems"(1) True this]
    have "deps_complete h'" and "pending h' changed' (Suc u)"
      by simp_all
    from "1.IH" [OF True d [symmetric] this] True d
    show ?thesis
      by (simp add: lys_feature_propagate.simps [of h changed u])
  qed
qed

lemma pending_flip:
  assumes dc: "deps_complete h" and pe: "pending h changed 0"
    and f': "f' = set_enabled (h p) \<and> iffeatures_true h (f_iffeatures (h p)) \<or> f' = clear_enabled (h p)"
  shows "deps_complete (h(p := f')) \<and> pending (h(p := f')) (changed @ [p]) 0"
proof
  let ?h = "h(p := f')"
  have links: "f_iffeatures f' = f_iffeatures (h p)" "f_depfeatures f' = f_depfeatures (h p)"
    using f' by auto
  show "deps_complete ?h"
    by (rule deps_complete_upd [OF dc links])
  have deps: "f_depfeatures (?h x) = f_depfeatures (h x)" for x
    using links by simp
  show "pending ?h (changed @ [p]) 0"
    unfolding pending_def
  proof (intro allI impI)
    fix q
    assume un: "unsettled ?h q"
    show "\<exists>k\<ge>0. k < length (changed @ [p]) \<and> q \<in> set (f_depfeatures (?h ((changed @ [p]) ! k)))"
    proof (cases "unsettled h q")
      case True
      with pe obtain k where k: "k < length changed" "q \<in> set (f_depfeatures (h (changed ! k)))"
        by (auto simp: pending_def)
      from k(1) have nth: "(changed @ [p]) ! k = changed ! k"
        by (simp add: nth_append)
      have "q \<in> set (f_depfeatures (?h ((changed @ [p]) ! k)))"
        unfolding nth deps by (rule k(2))
      moreover from k(1) have "k < length (changed @ [p])" by simp
      ultimately show ?thesis by blast
    next
      case False
      have "q \<in> set (f_depfeatures (h p))"
      proof (rule unsettled_flip [OF dc refl links(1) un False])
        assume "q = p"
        with un f' show "iffeatures_true h (f_iffeatures (h p))"
          by (auto simp: unsettled_def)
      qed
      then have "q \<in> set (f_depfeatures (?h ((changed @ [p]) ! length changed)))"
        unfolding deps by simp
      moreover have "length changed < length (changed @ [p])" by simp
      ultimately show ?thesis by blast
    qed
  qed
qed

lemma lys_feature_change_pass_pending:
  assumes "lys_feature_change_pass all name value ps h changed dc = r"
    and "deps_complete h" and "pending h changed 0"
  shows "case r of Done e h' \<Rightarrow> h' = h \<and> \<not> all
         | Next h' changed' dc' \<Rightarrow> deps_complete h' \<and> pending h' changed' 0"
  using assms
proof (induction ps arbitrary: h changed dc)
  case Nil
  then show ?case by auto
next
  case (Cons p ps)
  let ?f = "if value \<noteq> 0 then set_enabled (h p) else clear_enabled (h p)"
  let ?h = "h(p := ?f)"
  consider (skip) dc1 where "lys_feature_change_pass all name value ps h changed dc1 = r"
    | (stop) e where "r = Done e h" "\<not> all"
    | (flip) "value \<noteq> 0 \<longrightarrow> iffeatures_true h (f_iffeatures (h p))"
        "r = Next ?h (changed @ [p]) dc \<or>
         all \<and> lys_feature_change_pass all name value ps ?h (changed @ [p]) dc = r"
    using Cons.prems(1) by (auto simp: Let_def split: if_splits)
  then show ?case
  proof cases
    case skip
    from Cons.IH [OF skip Cons.prems(2,3)] show ?thesis .
  next
    case stop
    then show ?thesis by simp
  next
    case flip
    have "?f = set_enabled (h p) \<and> iffeatures_true h (f_iffeatures (h p)) \<or> ?f = clear_enabled (h p)"
      using flip(1) by auto
    from pending_flip [OF Cons.prems(2,3) this]
    have p': "deps_complete ?h" "pending ?h (changed @ [p]) 0"
      by simp_all
    from flip(2) show ?thesis
    proof
      assume "r = Next ?h (changed @ [p]) dc"
      with p' show ?thesis by simp
    next
      assume a: "all \<and> lys_feature_change_pass all name value ps ?h (changed @ [p]) dc = r"
      note rec = conjunct2 [OF a] and al = conjunct1 [OF a]
      from Cons.IH [OF rec p'] al show ?thesis
        by (auto split: run.splits)
    qed
  qed
qed

lemma lys_feature_change_run_consistent:
  fixes h :: "'p::finite heap"
  assumes "lys_feature_change_run all name value m h changed changed_count = (err, h')"
    and "deps_complete h" and "pending h changed 0" and "\<not> all \<longrightarrow> changed = []"
  shows "features_consistent h' \<or> (all \<and> value \<noteq> 0 \<and> err = LY_EDENIED)"
  using assms
proof (induction all name "value" m h changed changed_count
    rule: lys_feature_change_run.induct)
  case (1 all name "value" m h changed changed_count)
  note run = "1.prems"(1) [unfolded lys_feature_change_run.simps
      [of all name "value" m h changed changed_count]]
  note pass = lys_feature_change_pass_pending [OF refl "1.prems"(2,3), of all name "value" "mod_features m" 0]
  have nil: "features_consistent g" if "pending g [] 0" for g :: "'p heap"
    using that by (simp add: pending_def features_consistent_unsettled)
  show ?case
  proof (cases "lys_feature_change_pass all name value (mod_features m) h changed 0")
    case (Done e h1)
    with pass "1.prems"(3,4) run show ?thesis by (auto intro: nil)
  next
    case (Next h1 changed1 dc)
    with pass have p1: "deps_complete h1" "pending h1 changed1 0" by simp_all
    show ?thesis
    proof (cases "\<not> all \<and> changed1 = []")
      case True
      with run Next p1 show ?thesis by (auto intro: nil)
    next
      case notnil: False
      show ?thesis
      proof (cases "value \<noteq> 0 \<and> all \<and> dc \<noteq> 0")
        case False
        with run Next notnil have "h' = lys_feature_propagate h1 changed1 0"
          by auto
        with lys_feature_propagate_consistent [OF p1] show ?thesis by simp
      next
        case again: True
        show ?thesis
        proof (cases "changed_count = length changed1")
          case True
          with run Next notnil again show ?thesis by auto
        next
          case False
          with run Next notnil again
          have rec: "lys_feature_change_run all name value m h1 changed1 (length changed1) = (err, h')"
            by auto
          from "1.IH" [OF Next notnil again False rec p1] again show ?thesis by simp
        qed
      qed
    qed
  qed
qed

lemma lys_feature_change_consistent:
  fixes h :: "'p::finite heap"
  assumes "lys_feature_change h m name value = (err, h')"
    and "deps_complete h" and "features_consistent h"
  shows "features_consistent h'"
proof (cases "mod_features m = []")
  case True
  with assms(1,3) show ?thesis by (simp add: lys_feature_change_def)
next
  case False
  with assms(1)
  have run: "lys_feature_change_run (name = ''*'') name value m h [] 0 = (err, h')"
    by (simp add: lys_feature_change_def)
  have "pending h [] 0"
    using assms(3) by (simp add: pending_def features_consistent_unsettled)
  from lys_feature_change_run_consistent [OF run assms(2) this]
  consider "features_consistent h'" | "name = ''*''" "value \<noteq> 0" "err = LY_EDENIED"
    by auto
  then show ?thesis
  proof cases
    case 1
    then show ?thesis .
  next
    case 2
    have "enabled_since h h []" by (simp add: enabled_since_def)
    from lys_feature_change_run_all [OF run 2(1,2) this] 2(3) assms(3)
    show ?thesis by auto
  qed
qed

lemma lys_feature_deps_mono:
  assumes "lys_feature_deps dfs h changed = (h', changed')" and "is_enabled (h' p)"
  shows "is_enabled (h p)"
  using assms(1)
proof (induction dfs arbitrary: h changed)
  case Nil
  with assms(2) show ?case by simp
next
  case (Cons df dfs)
  show ?case
  proof (cases "is_enabled (h df) \<and> \<not> iffeatures_true h (f_iffeatures (h df))")
    case True
    with Cons.prems
    have "lys_feature_deps dfs (h(df := clear_enabled (h df))) (changed @ [df]) = (h', changed')"
      by simp
    from Cons.IH [OF this] show ?thesis
      by (cases "p = df") simp_all
  next
    case False
    with Cons.prems have "lys_feature_deps dfs h changed = (h', changed')"
      by (auto split: if_splits)
    from Cons.IH [OF this] show ?thesis .
  qed
qed

lemma lys_feature_propagate_mono:
  fixes h :: "'p::finite heap"
  assumes "is_enabled (lys_feature_propagate h changed u p)"
  shows "is_enabled (h p)"
  using assms
proof (induction h changed u rule: lys_feature_propagate.induct)
  case (1 h changed u)
  show ?case
  proof (cases "u < length changed")
    case False
    with "1.prems" show ?thesis
      by (simp add: lys_feature_propagate.simps [of h changed u])
  next
    case True
    obtain h' changed' where
      d: "lys_feature_deps (f_depfeatures (h (changed ! u))) h changed = (h', changed')"
      by (cases "lys_feature_deps (f_depfeatures (h (changed ! u))) h changed") auto
    with True "1.prems" have "is_enabled (lys_feature_propagate h' changed' (Suc u) p)"
      by (simp add: lys_feature_propagate.simps [of h changed u])
    from "1.IH" [OF True d [symmetric] this] have "is_enabled (h' p)" .
    from lys_feature_deps_mono [OF d this] show ?thesis .
  qed
qed

lemma lys_feature_change_pass_enabled:
  assumes "lys_feature_change_pass all name value ps h changed dc = r"
    and "r = Done e h' \<or> r = Next h' changed' dc'"
    and "is_enabled (h' p)" and "\<not> is_enabled (h p)"
  shows "value \<noteq> 0 \<and> p \<in> set ps \<and> (all \<or> f_name (h p) = name)"
  using assms
proof (induction ps arbitrary: h changed dc)
  case Nil
  then show ?case by auto
next
  case (Cons q qs)
  let ?f = "if value \<noteq> 0 then set_enabled (h q) else clear_enabled (h q)"
  let ?h = "h(q := ?f)"
  consider (skip) dc1 where "lys_feature_change_pass all name value qs h changed dc1 = r"
    | (stop) "h' = h"
    | (flip) "all \<or> f_name (h q) = name"
        "h' = ?h \<or> lys_feature_change_pass all name value qs ?h (changed @ [q]) dc = r"
    using Cons.prems(1,2) by (auto simp: Let_def split: if_splits)
  then show ?case
  proof cases
    case skip
    from Cons.IH [OF skip Cons.prems(2,3,4)] show ?thesis by auto
  next
    case stop
    with Cons.prems(3,4) show ?thesis by simp
  next
    case flip
    show ?thesis
    proof (cases "p = q")
      case True
      have "value \<noteq> 0"
      proof (rule ccontr)
        assume "\<not> value \<noteq> 0"
        then have v: "value = 0" by simp
        from flip(2) have "\<not> is_enabled (h' p)"
        proof
          assume "h' = ?h"
          with v True show ?thesis by simp
        next
          assume rec: "lys_feature_change_pass all name value qs ?h (changed @ [q]) dc = r"
          show ?thesis
          proof
            assume en: "is_enabled (h' p)"
            have "\<not> is_enabled (?h p)" using v True by simp
            from Cons.IH [OF rec Cons.prems(2) en this] v show False by simp
          qed
        qed
        with Cons.prems(3) show False by simp
      qed
      with True flip(1) show ?thesis by simp
    next
      case False
      from flip(2) show ?thesis
      proof
        assume "h' = ?h"
        with False Cons.prems(3,4) show ?thesis by simp
      next
        assume rec: "lys_feature_change_pass all name value qs ?h (changed @ [q]) dc = r"
        have "\<not> is_enabled (?h p)" using False Cons.prems(4) by simp
        from Cons.IH [OF rec Cons.prems(2,3) this] False show ?thesis by simp
      qed
    qed
  qed
qed

lemma lys_feature_change_run_enabled:
  fixes h :: "'p::finite heap"
  assumes "lys_feature_change_run all name value m h changed changed_count = (err, h')"
    and "is_enabled (h' p)" and "\<not> is_enabled (h p)"
  shows "value \<noteq> 0 \<and> p \<in> set (mod_features m) \<and> (all \<or> f_name (h p) = name)"
  using assms
proof (induction all name "value" m h changed changed_count
    rule: lys_feature_change_run.induct)
  case (1 all name "value" m h changed changed_count)
  note run = "1.prems"(1) [unfolded lys_feature_change_run.simps
      [of all name "value" m h changed changed_count]]
  let ?goal = "value \<noteq> 0 \<and> p \<in> set (mod_features m) \<and> (all \<or> f_name (h p) = name)"
  have from_pass: ?goal
    if "lys_feature_change_pass all name value (mod_features m) h changed 0 = r"
      and "r = Done e h1 \<or> r = Next h1 changed1 dc" and "is_enabled (h1 p)" for r e h1 changed1 dc
    using lys_feature_change_pass_enabled [OF that "1.prems"(3)] .
  show ?case
  proof (cases "lys_feature_change_pass all name value (mod_features m) h changed 0")
    case (Done e h1)
    with run have "h' = h1" by simp
    with from_pass [OF Done] "1.prems"(2) show ?thesis by simp
  next
    case (Next h1 changed1 dc)
    show ?thesis
    proof (cases "\<not> all \<and> changed1 = []")
      case True
      with run Next have "h' = h1" by simp
      with from_pass [OF Next] "1.prems"(2) show ?thesis by simp
    next
      case notnil: False
      show ?thesis
      proof (cases "value \<noteq> 0 \<and> all \<and> dc \<noteq> 0")
        case False
        with run Next notnil have "h' = lys_feature_propagate h1 changed1 0"
          by auto
        with "1.prems"(2) have "is_enabled (h1 p)"
          by (auto dest: lys_feature_propagate_mono)
        with from_pass [OF Next] show ?thesis by simp
      next
        case again: True
        show ?thesis
        proof (cases "changed_count = length changed1")
          case True
          with run Next notnil again have "h' = lys_feature_restore h1 changed1"
            by auto
          with "1.prems"(2) have "is_enabled (h1 p)"
            by (auto simp: lys_feature_restore_eq split: if_splits)
          with from_pass [OF Next] show ?thesis by simp
        next
          case False
          with run Next notnil again
          have rec: "lys_feature_change_run all name value m h1 changed1 (length changed1) = (err, h')"
            by auto
          show ?thesis
          proof (cases "is_enabled (h1 p)")
            case True
            with from_pass [OF Next] show ?thesis by simp
          next
            case dis: False
            from "1.IH" [OF Next notnil again False rec "1.prems"(2) dis] again
            show ?thesis by simp
          qed
        qed
      qed
    qed
  qed
qed

text \<open>
  Claim C5. After \<open>lys_feature_change\<close>, in a store with complete back-links that was
  consistent, no enabled feature has an if-feature expression of value 0: every dependent
  feature of a changed feature that was enabled and whose expression became false has been
  disabled, and so on through the features added to \<open>changed\<close>. And no feature is enabled
  by the propagation: a feature that is enabled after the call and was not before is a
  feature of the module that the call was asked to enable.
\<close>

theorem lys_feature_change_propagates:
  fixes h :: "'p::finite heap"
  assumes "lys_feature_change h m name value = (err, h')"
  shows "(deps_complete h \<and> features_consistent h \<longrightarrow> features_consistent h') \<and>
         (\<forall>p. is_enabled (h' p) \<and> \<not> is_enabled (h p) \<longrightarrow>
              value \<noteq> 0 \<and> p \<in> set (mod_features m) \<and> (name = ''*'' \<or> f_name (h p) = name))"
proof (intro conjI impI allI)
  assume "deps_complete h \<and> features_consistent h"
  with lys_feature_change_consistent [OF assms] show "features_consistent h'" by simp
next
  fix p
  assume p: "is_enabled (h' p) \<and> \<not> is_enabled (h p)"
  then have "mod_features m \<noteq> []"
    using assms by (auto simp: lys_feature_change_def split: if_splits)
  with assms have "lys_feature_change_run (name = ''*'') name value m h [] 0 = (err, h')"
    by (simp add: lys_feature_change_def)
  from lys_feature_change_run_enabled [OF this conjunct1 [OF p] conjunct2 [OF p]]
  show "value \<noteq> 0" and "p \<in> set (mod_features m)" and "name = ''*'' \<or> f_name (h p) = name"
    by simp_all
qed

lemma ex_deps_complete: "deps_complete (ex_heap a b c f)"
  unfolding deps_complete_def
proof (intro allI ballI)
  fix q i r
  assume "i \<in> set (f_iffeatures (ex_heap a b c f q))" and "r \<in> set (iff_features i)"
  then show "q \<in> set (f_depfeatures (ex_heap a b c f r))"
    by (cases q; cases r) (auto simp: ex_heap_def ex_iff_def)
qed

lemma ex_enable_b:
  "fst (lys_feature_change (ex_heap True False False True) ex_module ''b'' 1) = LY_SUCCESS"
  "map (\<lambda>p. is_enabled (snd (lys_feature_change (ex_heap True False False True) ex_module ''b'' 1) p))
     [FA, FB, FC, FF] = [True, True, False, False]"
  by code_simp+

lemma ex_enable_c:
  "fst (lys_feature_change (ex_heap True True False False) ex_module ''c'' 1) = LY_SUCCESS"
  "map (\<lambda>p. is_enabled (snd (lys_feature_change (ex_heap True True False False) ex_module ''c'' 1) p))
     [FA, FB, FC, FF] = [True, True, True, False]"
  by code_simp+

theorem lys_feature_change_propagates_witness:
  "fst (lys_feature_change (ex_heap True False False True) ex_module ''b'' 1) = LY_SUCCESS \<and>
   map (\<lambda>p. is_enabled (snd (lys_feature_change (ex_heap True False False True) ex_module ''b'' 1) p))
     [FA, FB, FC, FF] = [True, True, False, False] \<and>
   features_consistent (snd (lys_feature_change (ex_heap True False False True) ex_module ''b'' 1)) \<and>
   fst (lys_feature_change (ex_heap True True False False) ex_module ''c'' 1) = LY_SUCCESS \<and>
   map (\<lambda>p. is_enabled (snd (lys_feature_change (ex_heap True True False False) ex_module ''c'' 1) p))
     [FA, FB, FC, FF] = [True, True, True, False] \<and>
   lysc_iffeature_value (ex_heap True True True False) (Some ex_iff) = 1"
proof -
  have "lys_feature_change (ex_heap True False False True) ex_module ''b'' 1 =
          (fst (lys_feature_change (ex_heap True False False True) ex_module ''b'' 1),
           snd (lys_feature_change (ex_heap True False False True) ex_module ''b'' 1))"
    by simp
  from lys_feature_change_propagates [OF this] ex_deps_complete [of True False False True] ex_consistent
  have "features_consistent (snd (lys_feature_change (ex_heap True False False True) ex_module ''b'' 1))"
    by blast
  then show ?thesis
    using ex_enable_b ex_enable_c by (simp add: ex_iff_value)
qed

subsection \<open>The stores the calls reach\<close>

lemma same_links_refl: "same_links h h"
  by (simp add: same_links_def)

lemma same_links_trans: "same_links h h1 \<Longrightarrow> same_links h1 h2 \<Longrightarrow> same_links h h2"
  by (simp add: same_links_def)

lemma same_links_set: "same_links h (h(p := set_enabled (h p)))"
  by (simp add: same_links_def)

lemma same_links_clear: "same_links h (h(p := clear_enabled (h p)))"
  by (simp add: same_links_def)

lemma same_links_pass:
  "lys_feature_change_pass all name v ps h changed dc = Next h' changed' dc' \<or>
   lys_feature_change_pass all name v ps h changed dc = Done e h' \<Longrightarrow> same_links h h'"
proof (induction ps arbitrary: h changed dc)
  case Nil
  then show ?case by (auto simp: same_links_refl)
next
  case (Cons p ps)
  let ?g = "h(p := (if v \<noteq> 0 then set_enabled (h p) else clear_enabled (h p)))"
  have g: "same_links h ?g" by (simp add: same_links_set same_links_clear)
  from Cons.prems consider
      (same) dc1 where "lys_feature_change_pass all name v ps h changed dc1 = Next h' changed' dc' \<or>
                lys_feature_change_pass all name v ps h changed dc1 = Done e h'"
    | (flip) "lys_feature_change_pass all name v ps ?g (changed @ [p]) dc = Next h' changed' dc' \<or>
                lys_feature_change_pass all name v ps ?g (changed @ [p]) dc = Done e h'"
    | (stop) "h' = h" | (stop1) "h' = ?g"
    by (auto simp: Let_def split: if_splits)
  then show ?case
  proof cases
    case same
    from Cons.IH [OF this] show ?thesis .
  next
    case flip
    from same_links_trans [OF g Cons.IH [OF this]] show ?thesis .
  next
    case stop
    then show ?thesis by (simp add: same_links_refl)
  next
    case stop1
    show ?thesis unfolding stop1 by (rule g)
  qed
qed

lemma same_links_restore: "same_links h (lys_feature_restore h ps)"
proof (induction ps arbitrary: h)
  case Nil
  show ?case by (simp add: same_links_refl)
next
  case (Cons p ps)
  have "same_links h (lys_feature_restore (h(p := clear_enabled (h p))) ps)"
    by (rule same_links_trans [OF same_links_clear [of h p] Cons.IH [of "h(p := clear_enabled (h p))"]])
  then show ?case by simp
qed

lemma same_links_deps:
  "lys_feature_deps dfs h changed = (h', changed') \<Longrightarrow> same_links h h'"
proof (induction dfs arbitrary: h changed)
  case Nil
  then show ?case by (simp add: same_links_refl)
next
  case (Cons df dfs)
  show ?case
  proof (cases "is_enabled (h df) \<and> \<not> iffeatures_true h (f_iffeatures (h df))")
    case True
    with Cons.prems
    have "lys_feature_deps dfs (h(df := clear_enabled (h df))) (changed @ [df]) = (h', changed')"
      by simp
    from same_links_trans [OF same_links_clear Cons.IH [OF this]] show ?thesis .
  next
    case False
    with Cons.prems have "lys_feature_deps dfs h changed = (h', changed')"
      by (auto split: if_splits)
    from Cons.IH [OF this] show ?thesis .
  qed
qed

lemma same_links_propagate:
  fixes h :: "'p::finite heap"
  shows "same_links h (lys_feature_propagate h changed u)"
proof (induction h changed u rule: lys_feature_propagate.induct)
  case (1 h changed u)
  show ?case
  proof (cases "u < length changed")
    case False
    then show ?thesis
      by (simp add: lys_feature_propagate.simps [of h changed u] same_links_refl)
  next
    case True
    obtain h' changed' where
      d: "lys_feature_deps (f_depfeatures (h (changed ! u))) h changed = (h', changed')"
      by (cases "lys_feature_deps (f_depfeatures (h (changed ! u))) h changed") auto
    from same_links_trans [OF same_links_deps [OF d] "1.IH" [OF True d [symmetric]]] True d
    show ?thesis
      by (simp add: lys_feature_propagate.simps [of h changed u])
  qed
qed

lemma same_links_run:
  fixes h :: "'p::finite heap"
  assumes "lys_feature_change_run all name v m h changed changed_count = (err, h')"
  shows "same_links h h'"
  using assms
proof (induction all name v m h changed changed_count rule: lys_feature_change_run.induct)
  case (1 all name v m h changed changed_count)
  note run = "1.prems" [unfolded lys_feature_change_run.simps [of all name v m h changed changed_count]]
  show ?case
  proof (cases "lys_feature_change_pass all name v (mod_features m) h changed 0")
    case (Done e h1)
    with run have "h' = h1" by simp
    with same_links_pass [of all name v "mod_features m" h changed 0 h' _ _ e] Done
    show ?thesis by simp
  next
    case (Next h1 changed1 dc)
    from same_links_pass [of all name v "mod_features m" h changed 0 h1 changed1 dc] Next
    have l1: "same_links h h1" by simp
    show ?thesis
    proof (cases "\<not> all \<and> changed1 = []")
      case True
      with run Next l1 show ?thesis by auto
    next
      case notnil: False
      show ?thesis
      proof (cases "v \<noteq> 0 \<and> all \<and> dc \<noteq> 0")
        case False
        with run Next notnil have "h' = lys_feature_propagate h1 changed1 0" by auto
        with same_links_trans [OF l1 same_links_propagate] show ?thesis by simp
      next
        case again: True
        show ?thesis
        proof (cases "changed_count = length changed1")
          case True
          with run Next notnil again have "h' = lys_feature_restore h1 changed1" by auto
          with same_links_trans [OF l1 same_links_restore] show ?thesis by simp
        next
          case False
          with run Next notnil again
          have "lys_feature_change_run all name v m h1 changed1 (length changed1) = (err, h')"
            by auto
          from same_links_trans [OF l1 "1.IH" [OF Next notnil again False this]]
          show ?thesis .
        qed
      qed
    qed
  qed
qed

lemma same_links_change:
  fixes h :: "'p::finite heap"
  assumes "lys_feature_change h m name v = (err, h')"
  shows "same_links h h'"
proof (cases "mod_features m = []")
  case True
  with assms show ?thesis by (simp add: lys_feature_change_def same_links_refl)
next
  case False
  with assms have "lys_feature_change_run (name = ''*'') name v m h [] 0 = (err, h')"
    by (simp add: lys_feature_change_def)
  from same_links_run [OF this] show ?thesis .
qed

lemma deps_complete_links: "same_links h h' \<Longrightarrow> deps_complete h \<Longrightarrow> deps_complete h'"
  by (simp add: same_links_def deps_complete_def)

lemma lys_feature_calls_consistent:
  fixes h :: "'p::finite heap"
  assumes "deps_complete h" and "features_consistent h"
  shows "deps_complete (lys_feature_calls h calls) \<and> features_consistent (lys_feature_calls h calls)"
  using assms
proof (induction calls arbitrary: h)
  case Nil
  then show ?case by (simp add: lys_feature_calls.simps)
next
  case (Cons c calls)
  obtain m name v where c: "c = (m, name, v)" by (cases c) auto
  let ?h = "snd (lys_feature_change h m name v)"
  have ch: "lys_feature_change h m name v = (fst (lys_feature_change h m name v), ?h)" by simp
  from deps_complete_links [OF same_links_change [OF ch] Cons.prems(1)]
    lys_feature_change_consistent [OF ch Cons.prems]
  have "deps_complete ?h" "features_consistent ?h" .
  from Cons.IH [OF this] c show ?case by (simp add: lys_feature_calls.simps)
qed

text \<open>
  Claim C1. In every store that the calls of \<open>lys_feature_change\<close> reach from the compiled
  one (all features disabled, the back-links complete), \<open>lysc_feature_value\<close> on a feature,
  and \<open>lys_feature_value\<close> on the first feature of a name, return 1 exactly when the enabled
  bit is set and every expression of \<open>iffeatures\<close> has a value other than 0. The functions
  read the bit only; the runtime keeps every enabled feature's expressions true.
\<close>

theorem lysc_feature_value_enabled:
  fixes h0 :: "'p::finite heap"
  assumes "\<forall>q. \<not> is_enabled (h0 q)" and "deps_complete h0"
    and "h = lys_feature_calls h0 calls"
  shows "(lysc_feature_value (Some (h p)) = 1 \<longleftrightarrow>
            is_enabled (h p) \<and> (\<forall>i \<in> set (f_iffeatures (h p)). lysc_iffeature_value h (Some i) \<noteq> 0)) \<and>
         (compiled lm = Some m \<and> find (\<lambda>q. f_name (h q) = name) (mod_features m) = Some p \<longrightarrow>
            (lys_feature_value h (Some lm) (Some name) = Some 1 \<longleftrightarrow>
               is_enabled (h p) \<and> (\<forall>i \<in> set (f_iffeatures (h p)). lysc_iffeature_value h (Some i) \<noteq> 0)))"
proof -
  have "features_consistent h0"
    using assms(1) by (simp add: features_consistent_def)
  from lys_feature_calls_consistent [OF assms(2) this, of calls] assms(3)
  have "features_consistent h" by simp
  then have c: "is_enabled (h p) \<Longrightarrow> \<forall>i \<in> set (f_iffeatures (h p)). lysc_iffeature_value h (Some i) \<noteq> 0"
    by (simp add: features_consistent_def iffeatures_true_iff)
  have ne: "mod_features m \<noteq> []" if "find (\<lambda>q. f_name (h q) = name) (mod_features m) = Some p"
    using that by auto
  show ?thesis
    using c ne
    by (auto simp: lysc_feature_value_def lys_feature_value_def lys_feature_value_search_find)
qed

lemma ex_calls:
  "map (\<lambda>p. is_enabled (lys_feature_calls (ex_heap False False False False)
         [(ex_module, ''a'', 1), (ex_module, ''f'', 1)] p)) [FA, FB, FC, FF] = [True, False, False, True]"
  "map (\<lambda>p. is_enabled (lys_feature_calls (ex_heap False False False False)
         [(ex_module, ''a'', 1), (ex_module, ''f'', 1), (ex_module, ''b'', 1)] p)) [FA, FB, FC, FF]
     = [True, True, False, False]"
  by code_simp+

lemma ex_calls_iffeatures:
  "f_iffeatures (lys_feature_calls (ex_heap False False False False)
     [(ex_module, ''a'', 1), (ex_module, ''f'', 1)] FF) = [ex_iff]"
  by code_simp

theorem lysc_feature_value_enabled_witness:
  "lysc_feature_value (Some (lys_feature_calls (ex_heap False False False False)
     [(ex_module, ''a'', 1), (ex_module, ''f'', 1)] FF)) = 1 \<and>
   lysc_iffeature_value (lys_feature_calls (ex_heap False False False False)
     [(ex_module, ''a'', 1), (ex_module, ''f'', 1)]) (Some ex_iff) \<noteq> 0 \<and>
   lysc_feature_value (Some (lys_feature_calls (ex_heap False False False False)
     [(ex_module, ''a'', 1), (ex_module, ''f'', 1), (ex_module, ''b'', 1)] FF)) = 0"
proof -
  let ?init = "ex_heap False False False False"
  let ?h = "lys_feature_calls ?init [(ex_module, ''a'', 1), (ex_module, ''f'', 1)]"
  let ?g = "lys_feature_calls ?init [(ex_module, ''a'', 1), (ex_module, ''f'', 1), (ex_module, ''b'', 1)]"
  have dis: "\<forall>q. \<not> is_enabled (?init q)"
  proof
    fix q
    show "\<not> is_enabled (?init q)" by (cases q) (simp_all add: is_enabled_ex_heap)
  qed
  from lysc_feature_value_enabled [OF dis ex_deps_complete refl, of _ FF]
  have eq: "lysc_feature_value (Some (?h FF)) = 1 \<longleftrightarrow>
      is_enabled (?h FF) \<and> (\<forall>i \<in> set (f_iffeatures (?h FF)). lysc_iffeature_value ?h (Some i) \<noteq> 0)"
    by blast
  have on: "is_enabled (?h FF)" using ex_calls(1) by simp
  then have one: "lysc_feature_value (Some (?h FF)) = 1" by (simp add: lysc_feature_value_def)
  with eq have "\<forall>i \<in> set (f_iffeatures (?h FF)). lysc_iffeature_value ?h (Some i) \<noteq> 0"
    by blast
  then have expr: "lysc_iffeature_value ?h (Some ex_iff) \<noteq> 0"
    by (simp add: ex_calls_iffeatures)
  have "\<not> is_enabled (?g FF)" using ex_calls(2) by simp
  then have "lysc_feature_value (Some (?g FF)) = 0" by (simp add: lysc_feature_value_def)
  with one expr show ?thesis by blast
qed

section \<open>Enumerations and bits: derived types\<close>


















section \<open>Ranges: the check against the base range\<close>

lemma lys_compile_type_range_walk_sound:
  assumes "lys_compile_type_range_walk uns parts parts_done base u v = Some True"
    and "u \<le> i" and "i < parts_done"
  shows "i < length parts \<and> (\<exists>j < length base. range_part_within uns (parts ! i) (base ! j))"
  using assms
proof (induction uns parts parts_done base u v rule: lys_compile_type_range_walk.induct)
  case (1 uns parts parts_done base u v)
  let ?P = "parts ! u" and ?B = "base ! v"
  let ?goal = "i < length parts \<and> (\<exists>j < length base. range_part_within uns (parts ! i) (base ! j))"
  note w = "1.prems"(1) [unfolded lys_compile_type_range_walk.simps [of uns parts parts_done base u v]]
  show ?case
  proof (cases "u < parts_done \<and> v < length base")
    case False
    with w "1.prems"(2,3) show ?thesis by simp
  next
    case g: True
    have len: "\<not> length parts \<le> u"
      using w g by (auto split: if_splits)
    have lo: "\<not> range_lt uns (min_64 ?P) (min_64 ?B)"
      using w g len by (auto split: if_splits)
    have fwd: ?goal if ih: "Suc u \<le> i \<Longrightarrow> ?goal" and here: "range_part_within uns ?P ?B"
    proof (cases "i = u")
      case True
      with here len g show ?thesis by auto
    next
      case False
      with "1.prems"(2) have "Suc u \<le> i" by simp
      from ih [OF this] show ?thesis .
    qed
    show ?thesis
    proof (cases "min_64 ?B = max_64 ?B")
      case single: True
      show ?thesis
      proof (cases "min_64 ?B = min_64 ?P")
        case same: True
        have eq: "min_64 ?P = max_64 ?P"
          using w g len lo single same by (auto split: if_splits)
        have rec: "lys_compile_type_range_walk uns parts parts_done base (Suc u) (Suc v) = Some True"
          using w g len lo single same eq by simp
        have here: "range_part_within uns ?P ?B"
          using single same eq by (auto simp: range_part_within_def range_lt_def)
        show ?thesis
        proof (rule fwd [OF _ here])
          assume "Suc u \<le> i"
          from "1.IH"(1) [OF g len lo single same _ rec this "1.prems"(3)] eq
          show ?goal by simp
        qed
      next
        case differ: False
        have rec: "lys_compile_type_range_walk uns parts parts_done base u (Suc v) = Some True"
          using w g len lo single differ by simp
        from "1.IH"(2) [OF g len lo single differ rec "1.prems"(2,3)] show ?thesis .
      qed
    next
      case range: False
      show ?thesis
      proof (cases "min_64 ?P = max_64 ?P")
        case psingle: True
        show ?thesis
        proof (cases "range_lt uns (max_64 ?B) (max_64 ?P)")
          case True
          have rec: "lys_compile_type_range_walk uns parts parts_done base u (Suc v) = Some True"
            using w g len lo range psingle True by simp
          from "1.IH"(3) [OF g len lo range psingle True rec "1.prems"(2,3)] show ?thesis .
        next
          case False
          have rec: "lys_compile_type_range_walk uns parts parts_done base (Suc u) v = Some True"
            using w g len lo range psingle False by simp
          have here: "range_part_within uns ?P ?B"
            using lo False by (simp add: range_part_within_def)
          show ?thesis
          proof (rule fwd [OF _ here])
            assume "Suc u \<le> i"
            from "1.IH"(4) [OF g len lo range psingle False rec this "1.prems"(3)]
            show ?goal .
          qed
        qed
      next
        case prange: False
        show ?thesis
        proof (cases "range_lt uns (max_64 ?B) (max_64 ?P)")
          case over: True
          have beyond: "range_lt uns (max_64 ?B) (min_64 ?P)"
            using w g len lo range prange over by (auto split: if_splits)
          have rec: "lys_compile_type_range_walk uns parts parts_done base u (Suc v) = Some True"
            using w g len lo range prange over beyond by simp
          from "1.IH"(5) [OF g len lo range prange over beyond rec "1.prems"(2,3)] show ?thesis .
        next
          case False
          have rec: "lys_compile_type_range_walk uns parts parts_done base (Suc u) v = Some True"
            using w g len lo range prange False by simp
          have here: "range_part_within uns ?P ?B"
            using lo False by (simp add: range_part_within_def)
          show ?thesis
          proof (rule fwd [OF _ here])
            assume "Suc u \<le> i"
            from "1.IH"(6) [OF g len lo range prange False rec this "1.prems"(3)]
            show ?goal .
          qed
        qed
      qed
    qed
  qed
qed

lemma lys_compile_type_range_checked:
  assumes "lys_compile_type_range parse_int parse_uint arg basetype (Some base) = Some (Inr parts)"
  shows "\<exists>parts_done uns.
           lys_compile_type_range_parse parse_int parse_uint basetype arg [] False 0
             = Some (Inr (parts, parts_done)) \<and>
           range_unsigned basetype = Some uns \<and>
           (\<forall>i < parts_done. i < length parts \<and>
              (\<exists>j < length base. range_part_within uns (parts ! i) (base ! j)))"
proof -
  from assms obtain parts_done uns where
    p: "lys_compile_type_range_parse parse_int parse_uint basetype arg [] False 0
          = Some (Inr (parts, parts_done))"
    and u: "range_unsigned basetype = Some uns"
    and w: "lys_compile_type_range_walk uns parts parts_done base 0 0 = Some True"
    by (auto simp: lys_compile_type_range_def split: option.splits sum.splits bool.splits if_splits)
  from lys_compile_type_range_walk_sound [OF w] p u show ?thesis by auto
qed

text \<open>
  Claim C2 at the expression \<open>15 100\<close>, restricting a \<open>uint8\<close> with the base range
  \<open>10..20\<close>: the second number starts a new part while \<open>parts_done\<close> stays 0, the walk
  looks at the first part only, and the compilation succeeds with the part \<open>100\<close>, which is
  in no interval of the base range.
\<close>

theorem lys_compile_type_range_unseparated:
  "lys_compile_type_range ly_parse_int ly_parse_uint ''15 100'' LY_TYPE_UINT8
     (Some [\<lparr>min_64 = 10, max_64 = 20\<rparr>])
     = Some (Inr [\<lparr>min_64 = 15, max_64 = 15\<rparr>, \<lparr>min_64 = 100, max_64 = 100\<rparr>]) \<and>
   \<not> range_part_within True \<lparr>min_64 = 100, max_64 = 100\<rparr> \<lparr>min_64 = 10, max_64 = 20\<rparr>"
  by code_simp

lemma lys_compile_type_range_wider:
  "lys_compile_type_range ly_parse_int ly_parse_uint ''0..100'' LY_TYPE_UINT8
     (Some [\<lparr>min_64 = 10, max_64 = 200\<rparr>]) = Some (Inl LY_EVALID)"
  by code_simp

lemma lys_compile_type_range_narrower:
  "lys_compile_type_range ly_parse_int ly_parse_uint ''10..50'' LY_TYPE_UINT8
     (Some [\<lparr>min_64 = 0, max_64 = 100\<rparr>]) = Some (Inr [\<lparr>min_64 = 10, max_64 = 50\<rparr>])"
  by code_simp

section \<open>Patterns: the Perl expression\<close>

lemma pattern_copy_eq: "pattern_copy pattern buf = buf @ xsd_escaped pattern"
  by (induction pattern arbitrary: buf) (auto simp: xsd_escaped_def)

lemma length_xsd_escaped: "length (xsd_escaped pattern) = length pattern + pattern_count pattern"
  by (induction pattern) (auto simp: xsd_escaped_def)

lemma suffix_tail2:
  assumes "2 \<le> length p"
  shows "drop (length (m @ p) - 2) (m @ p) = ''.*'' \<longleftrightarrow> suffix ''.*'' p"
proof -
  have d: "drop (length (m @ p) - 2) (m @ p) = drop (length p - 2) p"
    using assms by simp
  have "suffix ''.*'' p \<longleftrightarrow> drop (length p - 2) p = ''.*''"
  proof
    assume "suffix ''.*'' p"
    then obtain zs where "p = zs @ ''.*''" by (auto simp: suffix_def)
    then show "drop (length p - 2) p = ''.*''" by simp
  next
    assume "drop (length p - 2) p = ''.*''"
    then have "p = take (length p - 2) p @ ''.*''"
      by (metis append_take_drop_id)
    then show "suffix ''.*'' p" by (metis suffixI)
  qed
  with d show ?thesis by simp
qed

lemma take_xsd_escaped:
  assumes "take (length q) (xsd_escaped cs @ post) = q"
    and "\<forall>x \<in> set q. x \<noteq> CHR ''$'' \<and> x \<noteq> CHR ''^'' \<and> x \<noteq> CHR 0x5C"
    and "post = [] \<or> hd post \<notin> set q"
  shows "take (length q) cs = q"
  using assms
proof (induction q arbitrary: cs)
  case Nil
  show ?case by simp
next
  case (Cons x q)
  show ?case
  proof (cases cs)
    case Nil
    with Cons.prems show ?thesis by (cases post) (auto simp: xsd_escaped_def)
  next
    case cs: (Cons d ds)
    have esc: "xsd_escaped (d # ds) = (if d = CHR ''$'' \<or> d = CHR ''^'' then [CHR 0x5C, d] else [d]) @ xsd_escaped ds"
      by (simp add: xsd_escaped_def)
    from Cons.prems(1,2) cs esc have d: "d = x" "\<not> (d = CHR ''$'' \<or> d = CHR ''^'')"
      by (auto split: if_splits)
    with Cons.prems(1) cs esc have "take (length q) (xsd_escaped ds @ post) = q"
      by simp
    from Cons.IH [OF this] Cons.prems(2,3) d cs show ?thesis by auto
  qed
qed

lemma pattern_ublock_None_Cons:
  "pattern_ublock (c # cs) = None \<longleftrightarrow>
     take 5 (c # cs) \<noteq> [CHR 0x5C, CHR ''p'', CHR ''{'', CHR ''I'', CHR ''s''] \<and> pattern_ublock cs = None"
  by simp

lemma pattern_ublock_escaped:
  assumes "pattern_ublock p = None" and "post = [] \<or> post = '')$''"
  shows "pattern_ublock (xsd_escaped p @ post) = None"
  using assms(1)
proof (induction p)
  case Nil
  from assms(2) show ?case by (auto simp: xsd_escaped_def)
next
  case (Cons c cs)
  from Cons.prems [unfolded pattern_ublock_None_Cons]
  have no: "take 5 (c # cs) \<noteq> [CHR 0x5C, CHR ''p'', CHR ''{'', CHR ''I'', CHR ''s'']"
    and rest: "pattern_ublock cs = None"
    by blast+
  note ih = Cons.IH [OF rest]
  have esc: "xsd_escaped (c # cs) = (if c = CHR ''$'' \<or> c = CHR ''^'' then [CHR 0x5C, c] else [c]) @ xsd_escaped cs"
    by (simp add: xsd_escaped_def)
  show ?case
  proof (cases "c = CHR ''$'' \<or> c = CHR ''^''")
    case True
    with esc ih show ?thesis by auto
  next
    case False
    have "take 5 (c # xsd_escaped cs @ post) \<noteq> [CHR 0x5C, CHR ''p'', CHR ''{'', CHR ''I'', CHR ''s'']"
    proof
      assume eq: "take 5 (c # xsd_escaped cs @ post) = [CHR 0x5C, CHR ''p'', CHR ''{'', CHR ''I'', CHR ''s'']"
      have t5: "take 5 (c # x) = c # take 4 x" for x :: string by simp
      have len: "length ''p{Is'' = 4" by simp
      from eq [unfolded t5]
      have c: "c = CHR 0x5C" and t: "take 4 (xsd_escaped cs @ post) = ''p{Is''"
        by (simp_all only: list.inject)
      have "take (length ''p{Is'') cs = ''p{Is''"
        by (rule take_xsd_escaped [of "''p{Is''" cs post, OF t [folded len]])
           (use assms(2) in auto)
      then have "take 4 cs = ''p{Is''" unfolding len .
      with c have "take 5 (c # cs) = [CHR 0x5C, CHR ''p'', CHR ''{'', CHR ''I'', CHR ''s'']"
        unfolding t5 by (simp only:)
      with no show False by blast
    qed
    with False esc ih show ?thesis by simp
  qed
qed

lemma lys_pattern_perl_regex_eq:
  assumes "pattern \<noteq> []" and "marker \<noteq> CHR ''.''"
  shows "lys_pattern_perl_regex (marker # pattern) 1 =
           Some (if suffix ''.*'' pattern then xsd_escaped pattern
                 else ''('' @ xsd_escaped pattern @ '')$'')"
proof (cases "2 \<le> length pattern")
  case True
  from suffix_tail2 [OF True, of "[marker]"]
  have "drop (length (marker # pattern) - 2) (marker # pattern) = ''.*'' \<longleftrightarrow> suffix ''.*'' pattern"
    by simp
  then show ?thesis
    using True by (auto simp add: lys_pattern_perl_regex_def pattern_anchor_def pattern_copy_eq)
next
  case False
  with assms(1) obtain c where p: "pattern = [c]"
    by (cases pattern) (auto simp: not_le less_Suc_eq)
  have "\<not> suffix ''.*'' pattern"
    using p by (auto simp: suffix_def Cons_eq_append_conv)
  then show ?thesis
    using p assms(2) by (simp add: lys_pattern_perl_regex_def pattern_anchor_def pattern_copy_eq)
qed

text \<open>
  Claim C6, as stated, fails for a pattern with a Unicode block: for \<open>\\p{IsBasicLatin}\<close>,
  which does not end in \<open>.*\<close>, the expression given to \<open>pcre_compile\<close> is
  \<open>([\\x{0000}-\\x{007F}])$\<close>, and not the escaped pattern in \<open>(\<close> ... \<open>)$\<close>, which is
  \<open>(\\p{IsBasicLatin})$\<close>.
\<close>

theorem lys_compile_type_pattern_check_ublock:
  "lys_compile_type_pattern_check (CHR 0x06 # CHR 0x5C # ''p{IsBasicLatin}'') 1
     = Some (Inr (''(['' @ CHR 0x5C # ''x{0000}-'' @ CHR 0x5C # ''x{007F}])$'')) \<and>
   \<not> suffix ''.*'' (CHR 0x5C # ''p{IsBasicLatin}'') \<and>
   ''('' @ xsd_escaped (CHR 0x5C # ''p{IsBasicLatin}'') @ '')$''
     = ''('' @ CHR 0x5C # ''p{IsBasicLatin})$'' \<and>
   lys_compile_type_pattern_check (CHR 0x06 # CHR 0x5C # ''p{IsBasicLatin}'') 1
     \<noteq> Some (Inr (''('' @ xsd_escaped (CHR 0x5C # ''p{IsBasicLatin}'') @ '')$''))"
  by code_simp

text \<open>
  Claim C6, amended. For a pattern as \<open>lys_compile_type_patterns\<close> passes it (behind the
  marker byte of the argument, which is not a dot) that is not empty and in which no
  \<open>\\p{Is\<close> occurs, the expression given to \<open>pcre_compile\<close> is the pattern with every \<open>$\<close>
  and \<open>^\<close> escaped by a backslash, and, unless the pattern ends in \<open>.*\<close>, wrapped as
  \<open>(\<close> ... \<open>)$\<close>; for \<open>[A-Z]+\<close> it is \<open>([A-Z]+)$\<close>. For the empty pattern the C code
  compares the two bytes in front of the pattern, of which the first lies in front of the
  argument, and no expression is defined.
\<close>

theorem lys_compile_type_pattern_check_wrap:
  "lys_compile_type_pattern_check [marker] 1 = None \<and>
   (pattern \<noteq> [] \<and> marker \<noteq> CHR ''.'' \<and> pattern_ublock pattern = None \<longrightarrow>
      lys_compile_type_pattern_check (marker # pattern) 1 =
        Some (Inr (if suffix ''.*'' pattern then xsd_escaped pattern
                   else ''('' @ xsd_escaped pattern @ '')$'')))"
proof (intro conjI impI)
  show "lys_compile_type_pattern_check [marker] 1 = None"
    by (simp add: lys_compile_type_pattern_check_def lys_pattern_perl_regex_def pattern_anchor_def)
next
  assume a: "pattern \<noteq> [] \<and> marker \<noteq> CHR ''.'' \<and> pattern_ublock pattern = None"
  let ?r = "if suffix ''.*'' pattern then xsd_escaped pattern else ''('' @ xsd_escaped pattern @ '')$''"
  from a have r: "lys_pattern_perl_regex (marker # pattern) 1 = Some ?r"
    by (intro lys_pattern_perl_regex_eq) simp_all
  from a pattern_ublock_escaped [of pattern "[]"] pattern_ublock_escaped [of pattern "'')$''"]
  have "pattern_ublock ?r = None"
    by simp
  then have "pattern_ublocks ?r = Inr ?r"
    by (simp add: pattern_ublocks.simps [of ?r])
  with r show "lys_compile_type_pattern_check (marker # pattern) 1 = Some (Inr ?r)"
    by (simp add: lys_compile_type_pattern_check_def)
qed

theorem lys_compile_type_pattern_check_wrap_witness:
  "lys_compile_type_pattern_check [CHR 0x06] 1 = None \<and>
   lys_compile_type_pattern_check (CHR 0x06 # ''[A-Z]+'') 1 = Some (Inr ''([A-Z]+)$'') \<and>
   lys_compile_type_pattern_check (CHR 0x15 # ''a$.*'') 1 = Some (Inr (''a'' @ CHR 0x5C # ''$.*''))"
  using lys_compile_type_pattern_check_wrap [of "CHR 0x06" "''[A-Z]+''"]
    lys_compile_type_pattern_check_wrap [of "CHR 0x15" "''a$.*''"]
  by (simp add: xsd_escaped_def suffix_def Cons_eq_append_conv)

end
